theory Spec2Isabelle
  imports Complex_Main "HOL-Library.Word" "HOL-Library.AList"
begin

unbundle bit_operations_syntax

section \<open>JavaScript values and operators used by \<^verbatim>\<open>src/selection.js\<close>\<close>

text \<open>
  JavaScript numbers that hold integers are modelled as \<open>int\<close>. The bitwise operators
  first convert their operands to 32-bit integers (signed for \<^verbatim>\<open>&\<close>, \<^verbatim>\<open><<\<close>,
  \<^verbatim>\<open>>>\<close>, unsigned for \<^verbatim>\<open>>>>\<close>) and take the shift count modulo 32.
\<close>

definition js_ToInt32 :: "int \<Rightarrow> int" where
  "js_ToInt32 v = signed_take_bit 31 v"

definition js_ToUint32 :: "int \<Rightarrow> int" where
  "js_ToUint32 v = take_bit 32 v"

definition js_and :: "int \<Rightarrow> int \<Rightarrow> int" where
  "js_and a b = js_ToInt32 a AND js_ToInt32 b"

definition js_shr :: "int \<Rightarrow> nat \<Rightarrow> int" where
  "js_shr a n = drop_bit (n mod 32) (js_ToInt32 a)"

definition js_shl :: "int \<Rightarrow> nat \<Rightarrow> int" where
  "js_shl a n = js_ToInt32 (push_bit (n mod 32) (js_ToInt32 a))"

definition js_ushr :: "int \<Rightarrow> nat \<Rightarrow> int" where
  "js_ushr a n = drop_bit (n mod 32) (js_ToUint32 a)"

text \<open>
  Numbers. A finite number \<open>Decimal neg s n\<close> is given by its sign and by the integers
  \<open>s\<close> and \<open>n\<close> that \<^verbatim>\<open>Number::toString\<close> works with: the decimal digits of \<open>s\<close>
  are the shortest string of digits that identifies the number, and its magnitude is
  \<open>s * 10 ^ (n - k)\<close>, where \<open>k\<close> is the number of digits of \<open>s\<close>. So 7 is
  \<open>Decimal False 7 1\<close>, 1200 is \<open>Decimal False 12 4\<close> and -0.25 is
  \<open>Decimal True 25 0\<close>. Zero has \<open>s = 0\<close> and \<open>n = 0\<close>; with the sign set it is the
  negative zero. \<open>Infinity neg\<close> is the infinity of that sign.
\<close>

datatype js_number =
    NaN
  | Infinity bool
  | Decimal bool nat int

text \<open>
  Data values: what a feature's properties, a group value or a worker's reply can hold.
  An object is the list of its own properties in enumeration order. \<open>None\<close> of type
  \<open>js_any\<close> is \<^verbatim>\<open>undefined\<close>, also as an element of an array and as the value of a
  property. Objects that serialise themselves (dates) and the values that
  \<^verbatim>\<open>JSON.stringify\<close> throws on (big integers, cyclic structures) are not among them.
\<close>

datatype json =
    JNull
  | JBool bool
  | JNum js_number
  | JStr string
  | JArr "json option list"
  | JObj "(string \<times> json option) list"

type_synonym js_any = "json option"

text \<open>\<^verbatim>\<open>v == null\<close>: true for \<^verbatim>\<open>null\<close> and \<^verbatim>\<open>undefined\<close>.\<close>

fun js_nullish :: "js_any \<Rightarrow> bool" where
  "js_nullish None = True"
| "js_nullish (Some JNull) = True"
| "js_nullish (Some _) = False"

text \<open>Truthiness, as \<^verbatim>\<open>if (v)\<close>, \<^verbatim>\<open>!v\<close> and \<^verbatim>\<open>v || w\<close> test it.\<close>

fun js_truthy :: "js_any \<Rightarrow> bool" where
  "js_truthy None = False"
| "js_truthy (Some JNull) = False"
| "js_truthy (Some (JBool b)) = b"
| "js_truthy (Some (JNum NaN)) = False"
| "js_truthy (Some (JNum (Infinity neg))) = True"
| "js_truthy (Some (JNum (Decimal neg s n))) = (s \<noteq> 0)"
| "js_truthy (Some (JStr s)) = (s \<noteq> [])"
| "js_truthy (Some (JArr _)) = True"
| "js_truthy (Some (JObj _)) = True"

text \<open>
  Decimal digits of a natural number, and \<^verbatim>\<open>Number::toString\<close>: a number whose
  exponent \<open>n\<close> is between -5 and 21 is written in positional notation, any other
  in exponent notation.
\<close>

fun decimal :: "nat \<Rightarrow> string" where
  "decimal n =
     (if n < 10 then [''0123456789'' ! n]
      else decimal (n div 10) @ [''0123456789'' ! (n mod 10)])"

declare decimal.simps [simp del]

definition digits_text :: "nat \<Rightarrow> int \<Rightarrow> string" where
  "digits_text s n =
     (let ds = decimal s; k = int (length ds) in
      if k \<le> n \<and> n \<le> 21 then ds @ replicate (nat (n - k)) CHR ''0''
      else if 0 < n \<and> n \<le> 21 then take (nat n) ds @ ''.'' @ drop (nat n) ds
      else if - 6 < n \<and> n \<le> 0 then ''0.'' @ replicate (nat (- n)) CHR ''0'' @ ds
      else (if k = 1 then ds else hd ds # ''.'' @ tl ds)
           @ ''e'' @ (if n - 1 < 0 then ''-'' else ''+'') @ decimal (nat \<bar>n - 1\<bar>))"

fun js_Number_toString :: "js_number \<Rightarrow> string" where
  "js_Number_toString NaN = ''NaN''"
| "js_Number_toString (Infinity neg) = (if neg then ''-Infinity'' else ''Infinity'')"
| "js_Number_toString (Decimal neg s n) =
     (if s = 0 then ''0'' else (if neg then ''-'' else []) @ digits_text s n)"

fun join_with :: "string \<Rightarrow> string list \<Rightarrow> string" where
  "join_with sep [] = []"
| "join_with sep [s] = s"
| "join_with sep (s # t # ts) = s @ sep @ join_with sep (t # ts)"

text \<open>
  \<^verbatim>\<open>ToString\<close>, as string concatenation applies it: an array joins its elements with
  a comma (\<^verbatim>\<open>null\<close> and \<^verbatim>\<open>undefined\<close> elements as the empty string), an object
  is \<^verbatim>\<open>[object Object]\<close>.
\<close>

fun js_ToString :: "json \<Rightarrow> string" where
  "js_ToString JNull = ''null''"
| "js_ToString (JBool b) = (if b then ''true'' else ''false'')"
| "js_ToString (JNum x) = js_Number_toString x"
| "js_ToString (JStr s) = s"
| "js_ToString (JArr vs) =
     join_with '',''
       (map (\<lambda>e. case e of None \<Rightarrow> [] | Some v \<Rightarrow> if v = JNull then [] else js_ToString v) vs)"
| "js_ToString (JObj _) = ''[object Object]''"

definition js_any_ToString :: "js_any \<Rightarrow> string" where
  "js_any_ToString v = (case v of None \<Rightarrow> ''undefined'' | Some w \<Rightarrow> js_ToString w)"

section \<open>The per-worker selection map (static members of \<^verbatim>\<open>FeatureSelection\<close>)\<close>

record tile =
  tile_key :: string
  tile_coords :: js_any
  tile_style_zoom :: js_any
  tile_source :: js_any
  tile_generation :: js_any

record ctx =
  ctx_source :: js_any
  ctx_layer :: js_any
  ctx_layers :: js_any

datatype selection_prop =
    PropFunction "ctx \<Rightarrow> js_any"
  | PropName string

record draw =
  selection_prop :: selection_prop
  selection_group :: string
  hover_color :: js_any
  click_color :: js_any

record feature_in =
  properties :: "(string \<times> js_any) list"

record selector_feature =
  sf_properties :: "(string \<times> js_any) list"
  sf_source_name :: js_any
  sf_source_layer :: js_any
  sf_layers :: js_any
  sf_tile :: tile
  sf_hover_color :: js_any
  sf_click_color :: js_any

record group_assignment =
  grp_index :: "int list"
  grp_key :: string
  grp_value :: js_any

record selector =
  color :: "rat list"
  sel_feature :: "selector_feature option"
  sel_group :: "group_assignment option"

record tile_entry =
  entries :: "int list"
  entry_tile :: tile

record selection_static =
  sel_map :: "int \<rightharpoonup> selector"
  tiles :: "string \<rightharpoonup> tile_entry"
  groups :: "string \<rightharpoonup> int list"
  group_index :: int
  map_size :: int
  map_index :: int
  map_prefix :: int

text \<open>The static properties as the module sets them when it is loaded.\<close>

definition static_init :: selection_static where
  "static_init =
     \<lparr>sel_map = Map.empty, tiles = Map.empty, groups = Map.empty, group_index = 0,
      map_size = 0, map_index = 0, map_prefix = 0\<rparr>"

text \<open>
  \<^verbatim>\<open>createSelector\<close>: the four colour bytes of an entry, from the incremented counter
  and the worker's prefix, and the 32-bit key built from four bytes (the same expression
  builds the key in \<^verbatim>\<open>createSelector\<close> and in \<^verbatim>\<open>read\<close>).
\<close>

definition selector_bytes :: "int \<Rightarrow> int \<Rightarrow> int \<times> int \<times> int \<times> int" where
  "selector_bytes idx prefix =
     (js_and idx 255, js_and (js_shr idx 8) 255, js_and (js_shr idx 16) 255, prefix)"

fun color_key :: "int \<times> int \<times> int \<times> int \<Rightarrow> int" where
  "color_key (ir, ig, ib, ia) = js_ushr (ir + js_shl ig 8 + js_shl ib 16 + js_shl ia 24) 0"

text \<open>
  \<^verbatim>\<open>createSelector(tile)\<close> returns the entry \<^verbatim>\<open>this.map[key]\<close>; the model returns
  the key, under which the entry is found in the new state. The colour components are
  the bytes divided by 255, as rationals.
\<close>

definition createSelector :: "selection_static \<Rightarrow> tile \<Rightarrow> int \<times> selection_static" where
  "createSelector s t =
     (let idx = map_index s + 1;
          (ir, ig, ib, ia) = selector_bytes idx (map_prefix s);
          k = color_key (ir, ig, ib, ia);
          m = (sel_map s)(k \<mapsto>
                \<lparr>color = [of_int ir / 255, of_int ig / 255, of_int ib / 255, of_int ia / 255],
                 sel_feature = None, sel_group = None\<rparr>);
          e = (case tiles s (tile_key t) of
                 None \<Rightarrow>
                   \<lparr>entries = [],
                    entry_tile = \<lparr>tile_key = tile_key t, tile_coords = tile_coords t,
                      tile_style_zoom = tile_style_zoom t, tile_source = tile_source t,
                      tile_generation = tile_generation t\<rparr>\<rparr>
               | Some e0 \<Rightarrow> e0)
      in (k, s\<lparr>map_index := idx, sel_map := m, map_size := map_size s + 1,
               tiles := (tiles s)(tile_key t \<mapsto> e\<lparr>entries := entries e @ [k]\<rparr>)\<rparr>))"

text \<open>
  \<^verbatim>\<open>getSelector(feature, draw, tile, context)\<close>: the group value comes from the
  function or the property named by \<^verbatim>\<open>draw.selection_prop\<close>; a truthy value is
  looked up in \<^verbatim>\<open>this.groups\<close> under \<^verbatim>\<open>selection_group + ':' + value\<close> and given
  the next group index colour when it is new. Returns the key of the entry.
\<close>

definition group_value_of :: "feature_in \<Rightarrow> draw \<Rightarrow> ctx \<Rightarrow> js_any" where
  "group_value_of f d c =
     (case selection_prop d of
        PropFunction g \<Rightarrow> g c
      | PropName p \<Rightarrow> (case map_of (properties f) p of None \<Rightarrow> None | Some v \<Rightarrow> v))"

definition group_key_of :: "draw \<Rightarrow> js_any \<Rightarrow> string" where
  "group_key_of d v = selection_group d @ '':'' @ js_any_ToString v"

definition getSelector ::
  "selection_static \<Rightarrow> feature_in \<Rightarrow> draw \<Rightarrow> tile \<Rightarrow> ctx \<Rightarrow> int \<times> selection_static" where
  "getSelector s f d t c =
     (let gv = group_value_of f d c;
          gk = group_key_of d gv;
          (k, s1) = createSelector s t;
          sf = \<lparr>sf_properties = properties f, sf_source_name = ctx_source c,
                sf_source_layer = ctx_layer c, sf_layers = ctx_layers c,
                sf_tile = (case tiles s1 (tile_key t) of
                             Some e \<Rightarrow> entry_tile e
                           | None \<Rightarrow> t),
                sf_hover_color = hover_color d, sf_click_color = click_color d\<rparr>;
          (grp, s2) =
            (if js_truthy gv then
               (case groups s1 gk of
                  Some g \<Rightarrow> (Some g, s1)
                | None \<Rightarrow>
                    (let gi = group_index s1 + 1;
                         g = [js_and gi 255, js_and (js_shr gi 8) 255,
                              js_and (js_shr gi 16) 255, 255]
                     in (Some g, s1\<lparr>group_index := gi, groups := (groups s1)(gk \<mapsto> g)\<rparr>)))
             else (None, s1));
          ga = \<lparr>grp_index = (case grp of Some g \<Rightarrow> g | None \<Rightarrow> [255, 255, 255, 255]),
                grp_key = gk, grp_value = gv\<rparr>
      in (k, s2\<lparr>sel_map := (sel_map s2)(k :=
                 map_option (\<lambda>e. e\<lparr>sel_feature := Some sf, sel_group := Some ga\<rparr>)
                   (sel_map s2 k))\<rparr>))"

definition reset :: "selection_static \<Rightarrow> selection_static" where
  "reset s = s\<lparr>groups := Map.empty, tiles := Map.empty, sel_map := Map.empty,
              map_size := 0, map_index := 0\<rparr>"

definition clearTile :: "selection_static \<Rightarrow> string \<Rightarrow> selection_static" where
  "clearTile s k = s"

definition getMapSize :: "selection_static \<Rightarrow> int" where
  "getMapSize s = map_size s"

definition setPrefix :: "selection_static \<Rightarrow> int \<Rightarrow> selection_static" where
  "setPrefix s prefix = s\<lparr>map_prefix := prefix\<rparr>"

text \<open>
  A worker's use of the static members: a sequence of calls. \<open>run_calls\<close> returns,
  for each call that allocates an entry, the key and the entry as the call returned it.
\<close>

datatype static_call =
    CreateSelector tile
  | GetSelector feature_in draw tile ctx
  | Reset
  | ClearTile string
  | GetMapSize
  | SetPrefix int

fun run_call :: "selection_static \<Rightarrow> static_call \<Rightarrow> (int \<times> selector) list \<times> selection_static" where
  "run_call s (CreateSelector t) =
     (let (k, s') = createSelector s t in ([(k, the (sel_map s' k))], s'))"
| "run_call s (GetSelector f d t c) =
     (let (k, s') = getSelector s f d t c in ([(k, the (sel_map s' k))], s'))"
| "run_call s Reset = ([], reset s)"
| "run_call s (ClearTile k) = ([], clearTile s k)"
| "run_call s GetMapSize = ([], s)"
| "run_call s (SetPrefix p) = ([], setPrefix s p)"

fun run_calls :: "selection_static \<Rightarrow> static_call list \<Rightarrow> (int \<times> selector) list \<times> selection_static" where
  "run_calls s [] = ([], s)"
| "run_calls s (c # cs) =
     (let (r, s1) = run_call s c; (rs, s2) = run_calls s1 cs in (r @ rs, s2))"


section \<open>Selection keys\<close>

subsection \<open>The bytes and the key of an entry\<close>

lemma js_and_255: "js_and v 255 = take_bit 8 v"
proof -
  have "js_and v 255 = signed_take_bit 31 v AND mask 8"
    by (simp add: js_and_def js_ToInt32_def mask_eq_exp_minus_1)
  also have "\<dots> = take_bit 8 (signed_take_bit 31 v)"
    by (simp add: take_bit_eq_mask)
  also have "\<dots> = take_bit 8 v"
    by (simp add: take_bit_signed_take_bit)
  finally show ?thesis .
qed

lemma js_shr_byte: "n \<le> 23 \<Longrightarrow> js_and (js_shr v n) 255 = take_bit 8 (drop_bit n v)"
proof -
  assume n: "n \<le> 23"
  have "take_bit 8 (drop_bit n (signed_take_bit 31 v)) = take_bit 8 (drop_bit n v)"
    using n by (simp add: take_bit_drop_bit take_bit_signed_take_bit)
  then show ?thesis using n by (simp add: js_and_255 js_shr_def js_ToInt32_def)
qed

lemma js_ToInt32_id: "- (2 ^ 31) \<le> v \<Longrightarrow> v < 2 ^ 31 \<Longrightarrow> js_ToInt32 v = v"
  unfolding js_ToInt32_def
  by (simp add: signed_take_bit_int_eq_self)

lemma js_shl_8: "0 \<le> b \<Longrightarrow> b < 256 \<Longrightarrow> js_shl b 8 = b * 256"
  by (simp add: js_shl_def js_ToInt32_id push_bit_eq_mult)

lemma js_shl_16: "0 \<le> b \<Longrightarrow> b < 256 \<Longrightarrow> js_shl b 16 = b * 65536"
  by (simp add: js_shl_def js_ToInt32_id push_bit_eq_mult)

lemma js_shl_24_mod: "take_bit 24 (js_shl v 24) = 0"
proof -
  have "take_bit 24 (js_shl v 24) = take_bit 24 (push_bit 24 (js_ToInt32 v))"
    by (simp add: js_shl_def js_ToInt32_def take_bit_signed_take_bit)
  then show ?thesis by (simp add: take_bit_push_bit)
qed

lemma js_shl_24_byte: "0 \<le> b \<Longrightarrow> b < 256 \<Longrightarrow> take_bit 32 (js_shl b 24) = b * 2 ^ 24"
proof -
  assume b: "0 \<le> b" "b < 256"
  have "js_ToInt32 b = b" using b by (simp add: js_ToInt32_id)
  then have "take_bit 32 (js_shl b 24) = take_bit 32 (push_bit 24 b)"
    by (simp add: js_shl_def) (simp add: js_ToInt32_def take_bit_signed_take_bit)
  also have "\<dots> = b * 2 ^ 24"
    using b by (simp add: push_bit_eq_mult take_bit_int_eq_self)
  finally show ?thesis .
qed

lemma selector_bytes_eq:
  "selector_bytes idx p =
     (take_bit 8 idx, take_bit 8 (drop_bit 8 idx), take_bit 8 (drop_bit 16 idx), p)"
  using js_shr_byte [of 8 idx] js_shr_byte [of 16 idx]
  by (simp add: selector_bytes_def js_and_255)

lemma byte_sum:
  assumes "0 \<le> idx" "idx < 2 ^ 24"
  shows "take_bit 8 idx + take_bit 8 (drop_bit 8 idx) * 256 + take_bit 8 (drop_bit 16 idx) * 65536
           = (idx::int)"
proof -
  define r q g h where "r = idx mod 256" and "q = idx div 256" and "g = q mod 256"
    and "h = q div 256"
  have 1: "idx = r + q * 256" by (simp add: r_def q_def)
  have 2: "q = g + h * 256" by (simp add: g_def h_def)
  have 3: "h = idx div 65536" by (simp add: h_def q_def zdiv_zmult2_eq[symmetric])
  have 4: "h mod 256 = h" using assms by (simp add: 3)
  have "r + g * 256 + (h mod 256) * 65536 = idx"
    using 1 2 4 by linarith
  then show ?thesis
    by (simp add: take_bit_eq_mod drop_bit_eq_div r_def g_def q_def 3[symmetric])
qed

lemma key_low: 
  assumes "0 \<le> idx" "idx < 2 ^ 24"
  shows "take_bit 24 (color_key (selector_bytes idx p)) = idx"
proof -
  let ?r = "take_bit 8 idx" and ?g = "take_bit 8 (drop_bit 8 idx)" and ?b = "take_bit 8 (drop_bit 16 idx)"
  have rb: "0 \<le> ?r" "?r < 256" "0 \<le> ?g" "?g < 256" "0 \<le> ?b" "?b < 256"
    using take_bit_int_less_exp [of 8] by simp_all
  have sum: "?r + ?g * 256 + ?b * 65536 = idx"
    using assms by (rule byte_sum)
  have "color_key (selector_bytes idx p) = take_bit 32 (idx + js_shl p 24)"
    using rb sum by (simp add: selector_bytes_eq js_shl_8 js_shl_16 js_ushr_def js_ToUint32_def)
  then have "take_bit 24 (color_key (selector_bytes idx p)) = take_bit 24 (idx + js_shl p 24)"
    by (simp add: take_bit_take_bit)
  also have "\<dots> = take_bit 24 (take_bit 24 idx + take_bit 24 (js_shl p 24))"
    by (simp only: take_bit_add)
  also have "\<dots> = idx"
    using assms by (simp add: js_shl_24_mod take_bit_int_eq_self)
  finally show ?thesis .
qed


lemma createSelector_key:
  "fst (createSelector s t) = color_key (selector_bytes (map_index s + 1) (map_prefix s))"
  by (simp add: createSelector_def Let_def split: prod.splits)

lemma createSelector_map_index:
  "map_index (snd (createSelector s t)) = map_index s + 1"
  by (simp add: createSelector_def Let_def split: prod.splits)

lemma getSelector_key: "fst (getSelector s f d t c) = fst (createSelector s t)"
  by (simp add: getSelector_def Let_def split: prod.splits option.splits)

lemma getSelector_map_index:
  "map_index (snd (getSelector s f d t c)) = map_index s + 1"
  using createSelector_map_index [of s t]
  by (auto simp add: getSelector_def Let_def split: prod.splits option.splits)

lemma run_call_map_index:
  "c \<noteq> Reset \<Longrightarrow> map_index s \<le> map_index (snd (run_call s c))"
  by (cases c)
     (simp_all add: createSelector_map_index getSelector_map_index clearTile_def setPrefix_def
        split_beta)

lemma run_call_keys:
  assumes "(k, e) \<in> set (fst (run_call s c))"
  shows "k = color_key (selector_bytes (map_index s + 1) (map_prefix s))
         \<and> map_index (snd (run_call s c)) = map_index s + 1"
  using assms createSelector_key [of s] createSelector_map_index [of s]
    getSelector_key [of s] getSelector_map_index [of s]
  by (cases c) (auto simp add: split_beta)

lemma run_call_keys_length: "length (fst (run_call s c)) \<le> 1"
  by (cases c) (simp_all add: split_beta)

lemma run_calls_map_index:
  "Reset \<notin> set cs \<Longrightarrow> map_index s \<le> map_index (snd (run_calls s cs))"
proof (induction cs arbitrary: s)
  case Nil
  then show ?case by simp
next
  case (Cons c cs)
  have "map_index s \<le> map_index (snd (run_call s c))"
    using Cons.prems by (intro run_call_map_index) auto
  also have "\<dots> \<le> map_index (snd (run_calls (snd (run_call s c)) cs))"
    using Cons.prems by (intro Cons.IH) auto
  finally show ?case by (simp add: split_beta)
qed

lemma run_calls_keys_range:
  assumes "Reset \<notin> set cs" "0 \<le> map_index s" "map_index (snd (run_calls s cs)) < 2 ^ 24"
    and "(k, e) \<in> set (fst (run_calls s cs))"
  shows "map_index s < take_bit 24 k \<and> take_bit 24 k \<le> map_index (snd (run_calls s cs))"
  using assms
proof (induction cs arbitrary: s)
  case Nil
  then show ?case by simp
next
  case (Cons c cs)
  let ?s1 = "snd (run_call s c)"
  have noreset: "c \<noteq> Reset" "Reset \<notin> set cs" using Cons.prems(1) by auto
  have m1: "map_index s \<le> map_index ?s1" using noreset by (simp add: run_call_map_index)
  have m2: "map_index ?s1 \<le> map_index (snd (run_calls ?s1 cs))"
    using noreset by (simp add: run_calls_map_index)
  have fin: "snd (run_calls s (c # cs)) = snd (run_calls ?s1 cs)" by (simp add: split_beta)
  from Cons.prems(4) consider (here) "(k, e) \<in> set (fst (run_call s c))"
    | (later) "(k, e) \<in> set (fst (run_calls ?s1 cs))"
    by (auto simp add: split_beta)
  then show ?case
  proof cases
    case here
    then have k: "k = color_key (selector_bytes (map_index s + 1) (map_prefix s))"
      and s1: "map_index ?s1 = map_index s + 1"
      using run_call_keys by blast+
    have "map_index s + 1 < 2 ^ 24" using s1 m2 Cons.prems(3) fin by simp
    then have "take_bit 24 k = map_index s + 1"
      using Cons.prems(2) k by (simp add: key_low)
    then show ?thesis using s1 m2 fin by simp
  next
    case later
    have "map_index ?s1 < take_bit 24 k \<and> take_bit 24 k \<le> map_index (snd (run_calls ?s1 cs))"
      using noreset(2) m1 Cons.prems(2,3) later fin by (intro Cons.IH) auto
    then show ?thesis using m1 fin by simp
  qed
qed

subsection \<open>Keys allocated between two resets are pairwise distinct\<close>

definition tile0 :: tile where
  "tile0 = \<lparr>tile_key = ''15/9650/12310'', tile_coords = None, tile_style_zoom = None,
             tile_source = None, tile_generation = None\<rparr>"

text \<open>
  C1. A worker makes any sequence of calls to the static members other than
  \<^verbatim>\<open>reset\<close> (\<^verbatim>\<open>createSelector\<close>, \<^verbatim>\<open>getSelector\<close>, which allocates through
  \<^verbatim>\<open>createSelector\<close>, \<^verbatim>\<open>setPrefix\<close>, \<^verbatim>\<open>clearTile\<close>, \<^verbatim>\<open>getMapSize\<close>), from a
  state whose counter is not negative. If the counter stays below \<open>2 ^ 24\<close> (its value
  after the last call is, and it never decreases), the keys of the entries returned by the
  allocating calls are pairwise distinct.
\<close>

theorem createSelector_keys_distinct:
  assumes "Reset \<notin> set cs" "0 \<le> map_index s" "map_index (snd (run_calls s cs)) < 2 ^ 24"
  shows "distinct (map fst (fst (run_calls s cs)))"
  using assms
proof (induction cs arbitrary: s)
  case Nil
  then show ?case by simp
next
  case (Cons c cs)
  let ?s1 = "snd (run_call s c)"
  let ?here = "fst (run_call s c)" and ?later = "fst (run_calls ?s1 cs)"
  have noreset: "c \<noteq> Reset" "Reset \<notin> set cs" using Cons.prems(1) by auto
  have m1: "map_index s \<le> map_index ?s1" using noreset by (simp add: run_call_map_index)
  have m2: "map_index ?s1 \<le> map_index (snd (run_calls ?s1 cs))"
    using noreset by (simp add: run_calls_map_index)
  have fin: "snd (run_calls s (c # cs)) = snd (run_calls ?s1 cs)" by (simp add: split_beta)
  have bound: "map_index (snd (run_calls ?s1 cs)) < 2 ^ 24" using Cons.prems(3) fin by simp
  have d_later: "distinct (map fst ?later)"
    using noreset(2) m1 Cons.prems(2) bound by (intro Cons.IH) auto
  have d_here: "distinct (map fst ?here)"
    using run_call_keys_length [of s c] by (cases ?here) auto
  have disj: "fst ` set ?here \<inter> fst ` set ?later = {}"
  proof (rule ccontr)
    assume "fst ` set ?here \<inter> fst ` set ?later \<noteq> {}"
    then obtain k e e' where h: "(k, e) \<in> set ?here" and l: "(k, e') \<in> set ?later"
      by auto
    from h have k: "k = color_key (selector_bytes (map_index s + 1) (map_prefix s))"
      and s1: "map_index ?s1 = map_index s + 1"
      using run_call_keys by blast+
    have "map_index s + 1 < 2 ^ 24" using s1 m2 bound by simp
    then have low: "take_bit 24 k = map_index s + 1"
      using Cons.prems(2) k by (simp add: key_low)
    have "map_index ?s1 < take_bit 24 k"
      using run_calls_keys_range [OF noreset(2) _ bound l] m1 Cons.prems(2) by simp
    then show False using low s1 by simp
  qed
  have "fst (run_calls s (c # cs)) = ?here @ ?later" by (simp add: split_beta)
  then show ?case using d_here d_later disj by simp
qed

theorem createSelector_keys_distinct_witness:
  "Reset \<notin> set [CreateSelector tile0, SetPrefix 1, CreateSelector tile0, CreateSelector tile0]
   \<and> 0 \<le> map_index static_init
   \<and> map_index (snd (run_calls static_init
         [CreateSelector tile0, SetPrefix 1, CreateSelector tile0, CreateSelector tile0])) < 2 ^ 24
   \<and> distinct (map fst (fst (run_calls static_init
         [CreateSelector tile0, SetPrefix 1, CreateSelector tile0, CreateSelector tile0])))"
proof -
  let ?cs = "[CreateSelector tile0, SetPrefix 1, CreateSelector tile0, CreateSelector tile0]"
  have h1: "Reset \<notin> set ?cs" by simp
  have h2: "0 \<le> map_index static_init" by (simp add: static_init_def)
  have h3: "map_index (snd (run_calls static_init ?cs)) < 2 ^ 24"
    by (simp add: split_beta createSelector_map_index setPrefix_def static_init_def)
  show ?thesis
    by (intro conjI h1 h2 h3 createSelector_keys_distinct [OF h1 h2 h3])
qed


section \<open>JSON serialisation\<close>

text \<open>
  \<^verbatim>\<open>JSON.stringify\<close> without indentation, on data values. A string is quoted, with
  the quotation mark, the backslash and the control characters escaped. A number that is
  not finite is written \<^verbatim>\<open>null\<close>, and so is an element of an array that is
  \<^verbatim>\<open>undefined\<close>; a property whose value is \<^verbatim>\<open>undefined\<close> is left out.
\<close>

definition hex_digit :: "nat \<Rightarrow> char" where
  "hex_digit n = ''0123456789abcdef'' ! n"

definition json_escape :: "char \<Rightarrow> string" where
  "json_escape c =
     (if c = CHR 0x22 then [CHR 0x5C, CHR 0x22]
      else if c = CHR 0x5C then [CHR 0x5C, CHR 0x5C]
      else if c = CHR 0x08 then [CHR 0x5C, CHR ''b'']
      else if c = CHR 0x0C then [CHR 0x5C, CHR ''f'']
      else if c = CHR 0x0A then [CHR 0x5C, CHR ''n'']
      else if c = CHR 0x0D then [CHR 0x5C, CHR ''r'']
      else if c = CHR 0x09 then [CHR 0x5C, CHR ''t'']
      else if (of_char c :: nat) < 32 then
        [CHR 0x5C, CHR ''u'', CHR ''0'', CHR ''0'',
         hex_digit (of_char c div 16), hex_digit (of_char c mod 16)]
      else [c])"

definition json_quote :: "string \<Rightarrow> string" where
  "json_quote s = CHR 0x22 # concat (map json_escape s) @ [CHR 0x22]"

fun js_isFinite :: "js_number \<Rightarrow> bool" where
  "js_isFinite (Decimal neg s n) = True"
| "js_isFinite x = False"

fun JSON_stringify :: "json \<Rightarrow> string" where
  "JSON_stringify JNull = ''null''"
| "JSON_stringify (JBool b) = (if b then ''true'' else ''false'')"
| "JSON_stringify (JNum x) = (if js_isFinite x then js_Number_toString x else ''null'')"
| "JSON_stringify (JStr s) = json_quote s"
| "JSON_stringify (JArr vs) =
     ''['' @ join_with '',''
        (map (\<lambda>e. case e of None \<Rightarrow> ''null'' | Some v \<Rightarrow> JSON_stringify v) vs) @ '']''"
| "JSON_stringify (JObj ps) =
     ''{'' @ join_with '',''
        (concat (map (\<lambda>(k, e). case e of
                        None \<Rightarrow> []
                      | Some v \<Rightarrow> [json_quote k @ '':'' @ JSON_stringify v]) ps)) @ ''}''"

section \<open>The main thread: requests, readback and the state cache\<close>

datatype worker = Worker nat

type_synonym pixel = "8 word \<times> 8 word \<times> 8 word \<times> 8 word"

record point =
  point_x :: rat
  point_y :: rat

record request =
  req_id :: int
  req_point :: point
  req_state :: "string option"
  sent :: bool

text \<open>
  The reply of the workers to a group colour query: for each worker the colour of the
  group, or \<^verbatim>\<open>null\<close>.
\<close>

type_synonym colors = "int list option list"

record selection =
  s_feature :: js_any
  s_changed :: bool
  s_request :: request
  selection_colors :: colors
  s_group :: "group_assignment option"
  update_pending :: bool

record rejection =
  rej_request :: request

record message =
  msg_id :: int
  msg_feature :: js_any
  msg_group :: "group_assignment option"

text \<open>
  What a call does beyond changing \<^verbatim>\<open>this\<close>: messages to workers (with the
  function that will take the reply), calls of a request's \<^verbatim>\<open>resolve\<close> and
  \<^verbatim>\<open>reject\<close>, log lines, timers and the calls on the GL context.
\<close>

datatype target = ToWorker worker | ToWorkers "worker option list"

datatype query = FeatureQuery int int | GroupQuery string

datatype continuation =
    Then_finishRead
  | Then_resolve js_any bool request group_assignment int
  | Then_update string nat

datatype effect =
    PostMessage target string query continuation
  | Resolve request selection
  | Reject request rejection
  | Log string string
  | ClearTimeout nat
  | SetTimeout nat int
  | GL_bindFramebuffer bool
  | GL_readPixels int int

datatype js_error = TypeError

text \<open>
  The instance. \<open>states\<close> maps a state key to \<^verbatim>\<open>null\<close> (\<open>None\<close>) or to a cached
  selection object: the pair of its identity and its fields. \<open>next_ref\<close> is the identity
  the next stored object gets. \<open>lock_fn_given\<close> says whether the constructor got a lock
  function.
\<close>

record FeatureSelection =
  workers :: "worker option list"
  lock_fn_given :: bool
  requests :: "(int \<times> request) list"
  states :: "string \<rightharpoonup> (nat \<times> selection) option"
  feature :: js_any
  read_delay :: int
  read_delay_timer :: "nat option"
  pixel :: pixel
  fbo_width :: int
  fbo_height :: int
  selection_request_id :: "int option"
  next_ref :: nat

datatype outcome =
    Returned FeatureSelection "effect list"
  | Threw js_error FeatureSelection "effect list"

fun out_state :: "outcome \<Rightarrow> FeatureSelection" where
  "out_state (Returned s es) = s"
| "out_state (Threw e s es) = s"

fun out_effects :: "outcome \<Rightarrow> effect list" where
  "out_effects (Returned s es) = es"
| "out_effects (Threw e s es) = es"

fun threw :: "outcome \<Rightarrow> bool" where
  "threw (Returned s es) = False"
| "threw (Threw e s es) = True"

fun after_effects :: "effect list \<Rightarrow> outcome \<Rightarrow> outcome" where
  "after_effects es0 (Returned s es) = Returned s (es0 @ es)"
| "after_effects es0 (Threw e s es) = Threw e s (es0 @ es)"

definition init :: "worker option list \<Rightarrow> bool \<Rightarrow> FeatureSelection" where
  "init ws lk =
     \<lparr>workers = ws, lock_fn_given = lk, requests = [], states = Map.empty, feature = Some JNull,
      read_delay = 0, read_delay_timer = None, pixel = (0, 0, 0, 0),
      fbo_width = 256, fbo_height = 256, selection_request_id = None, next_ref = 0\<rparr>"

definition locked :: "FeatureSelection \<Rightarrow> bool \<Rightarrow> bool" where
  "locked s lock = (lock_fn_given s \<and> lock)"

text \<open>
  \<^verbatim>\<open>getFeatureAt(point, state)\<close> queues a request under the next id; the function it
  chains to the request's promise stores the selection under a truthy state key.
\<close>

definition getFeatureAt :: "FeatureSelection \<Rightarrow> point \<Rightarrow> string option \<Rightarrow> FeatureSelection" where
  "getFeatureAt s p st =
     (let i = (case selection_request_id s of
                 None \<Rightarrow> 0
               | Some n \<Rightarrow> if n + 1 = 0 then 0 else n + 1)
      in s\<lparr>selection_request_id := Some i,
            requests := AList.update i
              \<lparr>req_id = i, req_point = p, req_state = st, sent = False\<rparr> (requests s)\<rparr>)"

definition getFeatureAt_then :: "FeatureSelection \<Rightarrow> string option \<Rightarrow> selection \<Rightarrow> FeatureSelection" where
  "getFeatureAt_then s st sel =
     (case st of
        None \<Rightarrow> s
      | Some k \<Rightarrow>
          if k = [] then s
          else s\<lparr>states := (states s)(k \<mapsto> Some (next_ref s, sel)), next_ref := next_ref s + 1\<rparr>)"

text \<open>
  \<^verbatim>\<open>clearPendingRequests\<close>: the loop runs over the keys the queue had when it started;
  a key deleted in the meantime is skipped.
\<close>

fun clear_loop :: "FeatureSelection \<Rightarrow> int list \<Rightarrow> FeatureSelection \<times> effect list" where
  "clear_loop s [] = (s, [])"
| "clear_loop s (r # rs) =
     (case map_of (requests s) r of
        None \<Rightarrow> clear_loop s rs
      | Some q \<Rightarrow>
          if sent q then clear_loop s rs
          else (let (s', es) = clear_loop (s\<lparr>requests := AList.delete r (requests s)\<rparr>) rs
                in (s', Reject q \<lparr>rej_request = q\<rparr> # es)))"

definition clearPendingRequests :: "FeatureSelection \<Rightarrow> FeatureSelection \<times> effect list" where
  "clearPendingRequests s = clear_loop s (map fst (requests s))"

text \<open>\<^verbatim>\<open>finishRead(message)\<close>, and the function it chains to the group colour query.\<close>

definition finishRead :: "FeatureSelection \<Rightarrow> message \<Rightarrow> outcome" where
  "finishRead s m =
     (case map_of (requests s) (msg_id m) of
        None \<Rightarrow>
          Returned s [Log ''error'' ''FeatureSelection.finishRead(): could not find message'']
      | Some q \<Rightarrow>
          (let f = msg_feature m;
               changed =
                 ((\<not> js_nullish f \<and> js_nullish (feature s)) \<or>
                  (js_nullish f \<and> \<not> js_nullish (feature s)) \<or>
                  (\<not> js_nullish f \<and> \<not> js_nullish (feature s) \<and>
                     JSON_stringify (the f) \<noteq> JSON_stringify (the (feature s))));
               s1 = s\<lparr>feature := f\<rparr>
           in if js_truthy f then
                (case msg_group m of
                   None \<Rightarrow> Threw TypeError s1 []
                 | Some g \<Rightarrow>
                     Returned s1
                       [PostMessage (ToWorkers (workers s1)) ''self.getFeatureSelectionGroupColor''
                          (GroupQuery (grp_key g)) (Then_resolve f changed q g (msg_id m))])
              else
                Returned (s1\<lparr>requests := AList.delete (msg_id m) (requests s1)\<rparr>)
                  [Resolve q \<lparr>s_feature = f, s_changed = changed, s_request = q,
                     selection_colors = [], s_group = None, update_pending = False\<rparr>]))"

definition finishRead_then ::
  "FeatureSelection \<Rightarrow> js_any \<Rightarrow> bool \<Rightarrow> request \<Rightarrow> group_assignment \<Rightarrow> int \<Rightarrow> colors
     \<Rightarrow> FeatureSelection \<times> effect list" where
  "finishRead_then s f changed q g i cols =
     (s\<lparr>requests := AList.delete i (requests s)\<rparr>,
      [Resolve q \<lparr>s_feature = f, s_changed = changed, s_request = q,
         selection_colors = cols, s_group = Some g, update_pending = False\<rparr>])"

text \<open>
  \<^verbatim>\<open>read()\<close> cancels the timer it holds and sets a new one; \<open>h\<close> is the handle
  \<^verbatim>\<open>setTimeout\<close> returns. \<open>read_timeout\<close> is the function the timer calls: \<open>gl\<close> is
  what \<^verbatim>\<open>readPixels\<close> reads at a position of the frame buffer, \<open>lock\<close> what the lock
  function answers.
\<close>

definition read :: "FeatureSelection \<Rightarrow> nat \<Rightarrow> FeatureSelection \<times> effect list" where
  "read s h =
     (s\<lparr>read_delay_timer := Some h\<rparr>,
      (case read_delay_timer s of None \<Rightarrow> [] | Some t \<Rightarrow> [ClearTimeout t])
        @ [SetTimeout h (read_delay s)])"

definition workers_at :: "worker option list \<Rightarrow> int \<Rightarrow> worker option" where
  "workers_at ws i = (if 0 \<le> i \<and> nat i < length ws then ws ! nat i else None)"

text \<open>
  The body of the loop of \<open>read_timeout\<close>, for a queued request \<open>q\<close> under the key
  \<open>r\<close> that has not been sent: the position sampled, the key and the worker id decoded
  from the pixel, and the dispatch.
\<close>

definition sample_x :: "FeatureSelection \<Rightarrow> request \<Rightarrow> int" where
  "sample_x s q = \<lfloor>point_x (req_point q) * of_int (fbo_width s)\<rfloor>"

definition sample_y :: "FeatureSelection \<Rightarrow> request \<Rightarrow> int" where
  "sample_y s q = \<lfloor>(1 - point_y (req_point q)) * of_int (fbo_height s)\<rfloor>"

definition pixel_key :: "pixel \<Rightarrow> int" where
  "pixel_key p = (case p of (p0, p1, p2, p3) \<Rightarrow> color_key (uint p0, uint p1, uint p2, uint p3))"

definition pixel_worker_id :: "pixel \<Rightarrow> int" where
  "pixel_worker_id p = (case p of (p0, p1, p2, p3) \<Rightarrow> uint p3)"

definition read_request ::
  "(int \<Rightarrow> int \<Rightarrow> pixel) \<Rightarrow> FeatureSelection \<Rightarrow> int \<Rightarrow> request \<Rightarrow> outcome" where
  "read_request gl s r q =
     (let px = sample_x s q;
          py = sample_y s q;
          s1 = s\<lparr>pixel := gl px py\<rparr>;
          feature_key = pixel_key (pixel s1);
          worker_id = pixel_worker_id (pixel s1);
          out =
            (if worker_id \<noteq> 255 then
               (case workers_at (workers s1) worker_id of
                  Some w \<Rightarrow>
                    Returned s1
                      [PostMessage (ToWorker w) ''self.getFeatureSelection''
                         (FeatureQuery (req_id q) feature_key) Then_finishRead]
                | None \<Rightarrow> Returned s1 [])
             else finishRead s1 \<lparr>msg_id = req_id q, msg_feature = None, msg_group = None\<rparr>)
      in case out of
           Threw e s2 es \<Rightarrow> Threw e s2 (GL_readPixels px py # es)
         | Returned s2 es \<Rightarrow>
             Returned
               (s2\<lparr>requests := AList.map_entry r (\<lambda>q'. q'\<lparr>sent := True\<rparr>) (requests s2)\<rparr>)
               (GL_readPixels px py # es))"

fun read_loop :: "(int \<Rightarrow> int \<Rightarrow> pixel) \<Rightarrow> FeatureSelection \<Rightarrow> int list \<Rightarrow> outcome" where
  "read_loop gl s [] = Returned s []"
| "read_loop gl s (r # rs) =
     (case map_of (requests s) r of
        None \<Rightarrow> read_loop gl s rs
      | Some q \<Rightarrow>
          if sent q then read_loop gl s rs
          else (case read_request gl s r q of
                  Threw e s' es \<Rightarrow> Threw e s' es
                | Returned s' es \<Rightarrow> after_effects es (read_loop gl s' rs)))"

definition read_timeout :: "(int \<Rightarrow> int \<Rightarrow> pixel) \<Rightarrow> bool \<Rightarrow> FeatureSelection \<Rightarrow> outcome" where
  "read_timeout gl lock s =
     (if locked s lock then Returned s []
      else (case read_loop gl s (map fst (requests s)) of
              Threw e s' es \<Rightarrow> Threw e s' (GL_bindFramebuffer True # es)
            | Returned s' es \<Rightarrow>
                Returned s' (GL_bindFramebuffer True # es @ [GL_bindFramebuffer False])))"

text \<open>
  \<^verbatim>\<open>updateState(state_key)\<close> returns a promise: resolved at once, or the one of the
  query it posts. The function chained to the query writes to the object
  \<^verbatim>\<open>updateState\<close> found, wherever the cache still holds it.
\<close>

datatype promise = Resolved_undefined | Awaiting

definition updateState :: "FeatureSelection \<Rightarrow> string \<Rightarrow> promise \<times> FeatureSelection \<times> effect list" where
  "updateState s state_key =
     (case states s state_key of
        None \<Rightarrow> (Resolved_undefined, s, [])
      | Some None \<Rightarrow> (Resolved_undefined, s, [])
      | Some (Some (ref, st)) \<Rightarrow>
          (case s_group st of
             None \<Rightarrow> (Resolved_undefined, s, [])
           | Some g \<Rightarrow>
               if update_pending st \<or>
                  length (filter (\<lambda>c. c \<noteq> None) (selection_colors st)) = length (workers s)
               then (Resolved_undefined, s, [])
               else (Awaiting,
                     s\<lparr>states := (\<lambda>k. case states s k of
                            Some (Some (ref', st')) \<Rightarrow>
                              if ref' = ref then Some (Some (ref', st'\<lparr>update_pending := True\<rparr>))
                              else Some (Some (ref', st'))
                          | v \<Rightarrow> v)\<rparr>,
                     [PostMessage (ToWorkers (workers s)) ''self.getFeatureSelectionGroupColor''
                        (GroupQuery (grp_key g)) (Then_update state_key ref)])))"

definition updateState_then ::
  "FeatureSelection \<Rightarrow> string \<Rightarrow> nat \<Rightarrow> colors \<Rightarrow> FeatureSelection \<times> effect list" where
  "updateState_then s state_key ref cols =
     (s\<lparr>states := (\<lambda>k. case states s k of
            Some (Some (ref', st')) \<Rightarrow>
              if ref' = ref
              then Some (Some (ref', st'\<lparr>selection_colors := cols, update_pending := False\<rparr>))
              else Some (Some (ref', st'))
          | v \<Rightarrow> v)\<rparr>,
      [Log ''debug'' ''Updated selection colors from workers''])"

definition clearState :: "FeatureSelection \<Rightarrow> string \<Rightarrow> FeatureSelection" where
  "clearState s state_key = s\<lparr>states := (states s)(state_key \<mapsto> None)\<rparr>"


section \<open>The request queue\<close>

subsection \<open>Sample states\<close>

definition request0 :: request where
  "request0 = \<lparr>req_id = 0, req_point = \<lparr>point_x = 1 / 4, point_y = 1 / 2\<rparr>,
                req_state = Some ''hover'', sent = True\<rparr>"

definition request1 :: request where
  "request1 = \<lparr>req_id = 1, req_point = \<lparr>point_x = 1 / 2, point_y = 1 / 2\<rparr>,
                req_state = None, sent = False\<rparr>"

definition fs_two :: FeatureSelection where
  "fs_two = (init [Some (Worker 0), Some (Worker 1)] False)
     \<lparr>requests := [(0, request0), (1, request1)], selection_request_id := Some 1\<rparr>"

subsection \<open>Cancelling the queue\<close>

lemma map_of_delete_other: "k' \<noteq> k \<Longrightarrow> map_of (AList.delete k xs) k' = map_of xs k'"
  by (simp add: AList.delete_conv')

lemma distinct_delete_keys: "distinct (map fst xs) \<Longrightarrow> distinct (map fst (AList.delete k xs))"
  by (simp add: AList.distinct_delete)

definition reject_of :: "(int \<times> request) list \<Rightarrow> int \<Rightarrow> effect list" where
  "reject_of xs k =
     (case map_of xs k of
        None \<Rightarrow> []
      | Some q \<Rightarrow> if sent q then [] else [Reject q \<lparr>rej_request = q\<rparr>])"

lemma clear_loop_char:
  assumes "distinct ks" "distinct (map fst (requests s))"
  shows "clear_loop s ks =
           (s\<lparr>requests := filter (\<lambda>(k, q). \<not> (k \<in> set ks \<and> \<not> sent q)) (requests s)\<rparr>,
            concat (map (reject_of (requests s)) ks))"
  using assms
proof (induction ks arbitrary: s)
  case Nil
  then show ?case by simp
next
  case (Cons k ks)
  have dks: "distinct ks" and kks: "k \<notin> set ks" using Cons.prems(1) by auto
  show ?case
  proof (cases "map_of (requests s) k")
    case None
    then have nk: "\<And>q. (k, q) \<notin> set (requests s)"
      by (metis map_of_SomeD weak_map_of_SomeI Cons.prems(2) map_of_eq_Some_iff option.distinct(1))
    have "filter (\<lambda>(k', q). \<not> (k' \<in> set (k # ks) \<and> \<not> sent q)) (requests s)
        = filter (\<lambda>(k', q). \<not> (k' \<in> set ks \<and> \<not> sent q)) (requests s)"
      by (rule filter_cong) (use nk in auto)
    then show ?thesis
      using None Cons.IH [OF dks Cons.prems(2)] by (simp add: reject_of_def)
  next
    case (Some q)
    then have mem: "(k, q) \<in> set (requests s)" by (rule map_of_SomeD)
    have uniq: "\<And>q'. (k, q') \<in> set (requests s) \<Longrightarrow> q' = q"
      using Cons.prems(2) Some by (simp add: map_of_eq_Some_iff)
    show ?thesis
    proof (cases "sent q")
      case True
      have "filter (\<lambda>(k', q). \<not> (k' \<in> set (k # ks) \<and> \<not> sent q)) (requests s)
          = filter (\<lambda>(k', q). \<not> (k' \<in> set ks \<and> \<not> sent q)) (requests s)"
        by (rule filter_cong) (use uniq True in auto)
      then show ?thesis
        using Some True Cons.IH [OF dks Cons.prems(2)] by (simp add: reject_of_def)
    next
      case False
      let ?s' = "s\<lparr>requests := AList.delete k (requests s)\<rparr>"
      have d': "distinct (map fst (requests ?s'))"
        using Cons.prems(2) by (simp add: distinct_delete_keys)
      have f: "filter (\<lambda>(k', q). \<not> (k' \<in> set ks \<and> \<not> sent q)) (AList.delete k (requests s))
          = filter (\<lambda>(k', q). \<not> (k' \<in> set (k # ks) \<and> \<not> sent q)) (requests s)"
        unfolding AList.delete_eq filter_filter
        by (rule filter_cong) (use uniq False in auto)
      have r: "map (reject_of (AList.delete k (requests s))) ks = map (reject_of (requests s)) ks"
      proof (rule map_cong [OF refl])
        fix k' assume "k' \<in> set ks"
        then have "k' \<noteq> k" using kks by auto
        then show "reject_of (AList.delete k (requests s)) k' = reject_of (requests s) k'"
          by (simp add: reject_of_def map_of_delete_other)
      qed
      have "clear_loop ?s' ks =
              (?s'\<lparr>requests := filter (\<lambda>(k', q). \<not> (k' \<in> set ks \<and> \<not> sent q))
                  (AList.delete k (requests s))\<rparr>,
               concat (map (reject_of (AList.delete k (requests s))) ks))"
        using Cons.IH [OF dks d'] by simp
      then have ih: "clear_loop ?s' ks =
              (s\<lparr>requests := filter (\<lambda>(k', q). \<not> (k' \<in> set (k # ks) \<and> \<not> sent q))
                  (requests s)\<rparr>,
               concat (map (reject_of (requests s)) ks))"
        by (simp only: f r) simp
      have here: "reject_of (requests s) k = [Reject q \<lparr>rej_request = q\<rparr>]"
        using Some False by (simp add: reject_of_def)
      have "clear_loop s (k # ks) =
              (let (s', es) = clear_loop ?s' ks in (s', Reject q \<lparr>rej_request = q\<rparr> # es))"
        using Some False by simp
      then have "clear_loop s (k # ks) =
              (s\<lparr>requests := filter (\<lambda>(k', q). \<not> (k' \<in> set (k # ks) \<and> \<not> sent q))
                  (requests s)\<rparr>,
               Reject q \<lparr>rej_request = q\<rparr> # concat (map (reject_of (requests s)) ks))"
        by (simp only: ih Let_def prod.case)
      then show ?thesis
        by (simp only: here list.map concat.simps append_Cons append_Nil)
    qed
  qed
qed

lemma reject_of_keys:
  assumes "distinct (map fst xs)"
  shows "concat (map (reject_of xs) (map fst xs))
           = map (\<lambda>(k, q). Reject q \<lparr>rej_request = q\<rparr>) (filter (\<lambda>(k, q). \<not> sent q) xs)"
proof -
  have "\<And>ys. set ys \<subseteq> set xs \<Longrightarrow> concat (map (reject_of xs) (map fst ys))
           = map (\<lambda>(k, q). Reject q \<lparr>rej_request = q\<rparr>) (filter (\<lambda>(k, q). \<not> sent q) ys)"
  proof -
    fix ys show "set ys \<subseteq> set xs \<Longrightarrow> concat (map (reject_of xs) (map fst ys))
           = map (\<lambda>(k, q). Reject q \<lparr>rej_request = q\<rparr>) (filter (\<lambda>(k, q). \<not> sent q) ys)"
    proof (induction ys)
      case Nil
      then show ?case by simp
    next
      case (Cons y ys)
      obtain k q where y: "y = (k, q)" by (cases y)
      have "map_of xs k = Some q" using Cons.prems y assms by simp
      then show ?case using Cons y by (simp add: reject_of_def)
    qed
  qed
  then show ?thesis by simp
qed

lemma clearPendingRequests_char:
  assumes "distinct (map fst (requests s))"
  shows "clearPendingRequests s =
           (s\<lparr>requests := filter (\<lambda>(k, q). sent q) (requests s)\<rparr>,
            map (\<lambda>(k, q). Reject q \<lparr>rej_request = q\<rparr>) (filter (\<lambda>(k, q). \<not> sent q) (requests s)))"
proof -
  have "filter (\<lambda>(k, q). \<not> (k \<in> set (map fst (requests s)) \<and> \<not> sent q)) (requests s)
      = filter (\<lambda>(k, q). sent q) (requests s)"
    by (rule filter_cong) force+
  then show ?thesis
    using clear_loop_char [OF assms assms] reject_of_keys [OF assms]
    by (simp add: clearPendingRequests_def)
qed

text \<open>
  C5. \<^verbatim>\<open>clearPendingRequests\<close> calls \<^verbatim>\<open>reject\<close> of every queued request whose
  \<open>sent\<close> flag is false, with a payload that holds the request itself, and removes it from
  the queue; the requests whose \<open>sent\<close> flag is true stay in the queue, unchanged and in
  their order. (The queue is an object: no key occurs twice.)
\<close>

theorem clearPendingRequests_rejects_unsent:
  assumes "distinct (map fst (requests s))"
  shows "clearPendingRequests s =
           (s\<lparr>requests := filter (\<lambda>(k, q). sent q) (requests s)\<rparr>,
            map (\<lambda>(k, q). Reject q \<lparr>rej_request = q\<rparr>) (filter (\<lambda>(k, q). \<not> sent q) (requests s)))"
  using assms by (rule clearPendingRequests_char)

theorem clearPendingRequests_rejects_unsent_witness:
  "distinct (map fst (requests fs_two))
   \<and> clearPendingRequests fs_two =
       (fs_two\<lparr>requests := [(0, request0)]\<rparr>, [Reject request1 \<lparr>rej_request = request1\<rparr>])"
proof -
  have h: "distinct (map fst (requests fs_two))" by (simp add: fs_two_def)
  have "clearPendingRequests fs_two =
          (fs_two\<lparr>requests := [(0, request0)]\<rparr>, [Reject request1 \<lparr>rej_request = request1\<rparr>])"
    using clearPendingRequests_rejects_unsent [OF h]
    by (simp add: fs_two_def request0_def request1_def)
  with h show ?thesis by (intro conjI)
qed

subsection \<open>A reply that matches no request\<close>

text \<open>
  C9. When the id of the message is no key of the queue, \<^verbatim>\<open>finishRead\<close> logs an error
  and returns: it does not throw, the instance (the queue, the selected feature, the
  state cache and everything else) is as it was, and the log line is the only effect, so no
  message goes to a worker.
\<close>

theorem finishRead_unknown_id:
  assumes "map_of (requests s) (msg_id m) = None"
  shows "finishRead s m =
           Returned s [Log ''error'' ''FeatureSelection.finishRead(): could not find message'']"
  using assms by (simp add: finishRead_def)

theorem finishRead_unknown_id_witness:
  "map_of (requests fs_two) (msg_id \<lparr>msg_id = 7, msg_feature = Some (JStr ''f''), msg_group = None\<rparr>) = None
   \<and> finishRead fs_two \<lparr>msg_id = 7, msg_feature = Some (JStr ''f''), msg_group = None\<rparr> =
       Returned fs_two [Log ''error'' ''FeatureSelection.finishRead(): could not find message'']"
proof -
  let ?m = "\<lparr>msg_id = 7, msg_feature = Some (JStr ''f''), msg_group = None\<rparr>"
  have h: "map_of (requests fs_two) (msg_id ?m) = None" by (simp add: fs_two_def)
  show ?thesis by (intro conjI h finishRead_unknown_id [OF h])
qed


section \<open>The read pass\<close>

text \<open>
  The queue is an object whose keys are the ids of the requests it holds: no key occurs
  twice, and the request under a key has that id (\<^verbatim>\<open>getFeatureAt\<close> stores it so).
  \<open>effect_request\<close> is the id of the request an effect is about: the id a message to a
  worker carries, or the id of the request whose promise is resolved or rejected.
  \<open>same_frame\<close> lists what the loop of a pass never writes; \<open>skipped\<close> says that the
  loop passes over a key.
\<close>

definition queue_ok :: "FeatureSelection \<Rightarrow> bool" where
  "queue_ok s \<longleftrightarrow>
     distinct (map fst (requests s)) \<and> (\<forall>(k, q) \<in> set (requests s). req_id q = k)"

fun effect_request :: "effect \<Rightarrow> int option" where
  "effect_request (PostMessage t n (FeatureQuery i k) c) = Some i"
| "effect_request (Resolve q p) = Some (req_id q)"
| "effect_request (Reject q p) = Some (req_id q)"
| "effect_request e = None"

definition same_frame :: "FeatureSelection \<Rightarrow> FeatureSelection \<Rightarrow> bool" where
  "same_frame s s' \<longleftrightarrow>
     workers s' = workers s \<and> fbo_width s' = fbo_width s \<and> fbo_height s' = fbo_height s
     \<and> lock_fn_given s' = lock_fn_given s \<and> states s' = states s
     \<and> read_delay_timer s' = read_delay_timer s \<and> read_delay s' = read_delay s
     \<and> selection_request_id s' = selection_request_id s \<and> next_ref s' = next_ref s"

definition skipped :: "FeatureSelection \<Rightarrow> int \<Rightarrow> bool" where
  "skipped s k = (case map_of (requests s) k of None \<Rightarrow> True | Some q \<Rightarrow> sent q)"

lemma queue_ok_lookup: "queue_ok s \<Longrightarrow> map_of (requests s) k = Some q \<Longrightarrow> req_id q = k"
  by (auto simp add: queue_ok_def dest: map_of_SomeD)

lemma queue_ok_delete:
  assumes "queue_ok s" and "requests s' = AList.delete k (requests s)"
  shows "queue_ok s'"
proof -
  have "set (AList.delete k (requests s)) \<subseteq> set (requests s)"
    by (auto simp add: AList.delete_eq)
  then show ?thesis
    using assms by (auto simp add: queue_ok_def AList.distinct_delete)
qed

lemma queue_ok_map_entry:
  assumes "queue_ok s"
    and "requests s' = AList.map_entry k (\<lambda>q. q\<lparr>sent := True\<rparr>) (requests s)"
  shows "queue_ok s'"
proof -
  have 1: "map fst (AList.map_entry k (\<lambda>q. q\<lparr>sent := True\<rparr>) xs) = map fst xs"
    for xs :: "(int \<times> request) list"
    by (induction xs) auto
  have 2: "(a, b) \<in> set (AList.map_entry k (\<lambda>q. q\<lparr>sent := True\<rparr>) xs) \<Longrightarrow>
             \<exists>b'. (a, b') \<in> set xs \<and> req_id b = req_id b'"
    for xs :: "(int \<times> request) list" and a b
    by (induction xs) (auto split: if_splits)
  show ?thesis
    using assms 1 2 by (fastforce simp add: queue_ok_def)
qed

lemma map_entry_delete: "AList.map_entry k f (AList.delete k xs) = AList.delete k xs"
  by (induction xs) auto

lemma map_of_map_entry_other:
  "k' \<noteq> k \<Longrightarrow> map_of (AList.map_entry k f xs) k' = map_of xs k'"
  by (simp add: AList.map_of_map_entry)

lemma map_of_map_entry_same:
  "map_of xs k = Some q \<Longrightarrow> map_of (AList.map_entry k f xs) k = Some (f q)"
  by (simp add: AList.map_of_map_entry)

lemma map_of_delete_same: "map_of (AList.delete k xs) k = None"
  by (simp add: AList.delete_conv')

lemma finishRead_no_feature:
  assumes "map_of (requests s) i = Some q"
  shows "finishRead s \<lparr>msg_id = i, msg_feature = None, msg_group = None\<rparr> =
           Returned (s\<lparr>feature := None, requests := AList.delete i (requests s)\<rparr>)
             [Resolve q \<lparr>s_feature = None, s_changed = (\<not> js_nullish (feature s)), s_request = q,
                selection_colors = [], s_group = None, update_pending = False\<rparr>]"
  using assms by (simp add: finishRead_def)

text \<open>The three ways the body of the loop can go.\<close>

lemma read_request_empty:
  assumes "map_of (requests s) r = Some q" "req_id q = r"
    and "pixel_worker_id (gl (sample_x s q) (sample_y s q)) = 255"
  shows "read_request gl s r q =
           Returned
             (s\<lparr>pixel := gl (sample_x s q) (sample_y s q), feature := None,
                requests := AList.delete r (requests s)\<rparr>)
             [GL_readPixels (sample_x s q) (sample_y s q),
              Resolve q \<lparr>s_feature = None, s_changed = (\<not> js_nullish (feature s)), s_request = q,
                selection_colors = [], s_group = None, update_pending = False\<rparr>]"
  using assms by (simp add: read_request_def Let_def finishRead_no_feature map_entry_delete)

lemma read_request_dispatch:
  assumes "pixel_worker_id (gl (sample_x s q) (sample_y s q)) \<noteq> 255"
    and "workers_at (workers s) (pixel_worker_id (gl (sample_x s q) (sample_y s q))) = Some w"
  shows "read_request gl s r q =
           Returned
             (s\<lparr>pixel := gl (sample_x s q) (sample_y s q),
                requests := AList.map_entry r (\<lambda>q'. q'\<lparr>sent := True\<rparr>) (requests s)\<rparr>)
             [GL_readPixels (sample_x s q) (sample_y s q),
              PostMessage (ToWorker w) ''self.getFeatureSelection''
                (FeatureQuery (req_id q) (pixel_key (gl (sample_x s q) (sample_y s q))))
                Then_finishRead]"
  using assms by (simp add: read_request_def Let_def)

lemma read_request_no_worker:
  assumes "pixel_worker_id (gl (sample_x s q) (sample_y s q)) \<noteq> 255"
    and "workers_at (workers s) (pixel_worker_id (gl (sample_x s q) (sample_y s q))) = None"
  shows "read_request gl s r q =
           Returned
             (s\<lparr>pixel := gl (sample_x s q) (sample_y s q),
                requests := AList.map_entry r (\<lambda>q'. q'\<lparr>sent := True\<rparr>) (requests s)\<rparr>)
             [GL_readPixels (sample_x s q) (sample_y s q)]"
  using assms by (simp add: read_request_def Let_def)

lemma read_request_step:
  assumes ok: "queue_ok s" and q: "map_of (requests s) r = Some q"
  shows "\<not> threw (read_request gl s r q)"
    and "queue_ok (out_state (read_request gl s r q))"
    and "same_frame s (out_state (read_request gl s r q))"
    and "\<And>k. k \<noteq> r \<Longrightarrow>
           map_of (requests (out_state (read_request gl s r q))) k = map_of (requests s) k"
    and "\<And>e i. e \<in> set (out_effects (read_request gl s r q)) \<Longrightarrow> effect_request e = Some i
           \<Longrightarrow> i = r"
proof -
  have id: "req_id q = r" using ok q by (rule queue_ok_lookup)
  let ?w = "pixel_worker_id (gl (sample_x s q) (sample_y s q))"
  consider (empty) "?w = 255"
    | (dispatch) w where "?w \<noteq> 255" "workers_at (workers s) ?w = Some w"
    | (none) "?w \<noteq> 255" "workers_at (workers s) ?w = None"
    by (cases "workers_at (workers s) ?w") auto
  then have "\<not> threw (read_request gl s r q)
      \<and> queue_ok (out_state (read_request gl s r q))
      \<and> same_frame s (out_state (read_request gl s r q))
      \<and> (\<forall>k. k \<noteq> r \<longrightarrow>
           map_of (requests (out_state (read_request gl s r q))) k = map_of (requests s) k)
      \<and> (\<forall>e i. e \<in> set (out_effects (read_request gl s r q)) \<longrightarrow> effect_request e = Some i
           \<longrightarrow> i = r)"
  proof cases
    case empty
    note eq = read_request_empty [where gl = gl, OF q id empty]
    have "queue_ok (out_state (read_request gl s r q))"
      by (rule queue_ok_delete [OF ok, where k = r]) (simp add: eq)
    then show ?thesis
      using id by (simp add: eq same_frame_def map_of_delete_other)
  next
    case dispatch
    note eq = read_request_dispatch [where gl = gl and r = r, OF dispatch]
    have "queue_ok (out_state (read_request gl s r q))"
      by (rule queue_ok_map_entry [OF ok, where k = r]) (simp add: eq)
    then show ?thesis
      using id by (simp add: eq same_frame_def map_of_map_entry_other)
  next
    case none
    note eq = read_request_no_worker [where gl = gl and r = r, OF none]
    have "queue_ok (out_state (read_request gl s r q))"
      by (rule queue_ok_map_entry [OF ok, where k = r]) (simp add: eq)
    then show ?thesis
      using id by (simp add: eq same_frame_def map_of_map_entry_other)
  qed
  then show "\<not> threw (read_request gl s r q)"
    and "queue_ok (out_state (read_request gl s r q))"
    and "same_frame s (out_state (read_request gl s r q))"
    and "\<And>k. k \<noteq> r \<Longrightarrow>
           map_of (requests (out_state (read_request gl s r q))) k = map_of (requests s) k"
    and "\<And>e i. e \<in> set (out_effects (read_request gl s r q)) \<Longrightarrow> effect_request e = Some i
           \<Longrightarrow> i = r"
    by blast+
qed


lemma outcome_returned: "\<not> threw out \<Longrightarrow> out = Returned (out_state out) (out_effects out)"
  by (cases out) simp_all

lemma after_effects_simps [simp]:
  "out_state (after_effects es out) = out_state out"
  "out_effects (after_effects es out) = es @ out_effects out"
  "threw (after_effects es out) = threw out"
  by (cases out; simp)+

lemma after_effects_twice: "after_effects es (after_effects es' out) = after_effects (es @ es') out"
  by (cases out) simp_all

lemma after_effects_Nil [simp]: "after_effects [] out = out"
  by (cases out) simp_all

lemma read_loop_skip: "skipped s k \<Longrightarrow> read_loop gl s (k # ks) = read_loop gl s ks"
  by (simp add: skipped_def split: option.splits)

lemma read_loop_body:
  assumes "map_of (requests s) k = Some q" "\<not> sent q" "\<not> threw (read_request gl s k q)"
  shows "read_loop gl s (k # ks) =
           after_effects (out_effects (read_request gl s k q))
             (read_loop gl (out_state (read_request gl s k q)) ks)"
  using assms by (cases "read_request gl s k q") simp_all

declare read_loop.simps(2) [simp del]

lemma same_frame_refl [simp]: "same_frame s s"
  by (simp add: same_frame_def)

lemma same_frame_trans: "same_frame s s1 \<Longrightarrow> same_frame s1 s2 \<Longrightarrow> same_frame s s2"
  by (simp add: same_frame_def)

lemma read_loop_all:
  assumes "queue_ok s"
  shows "\<not> threw (read_loop gl s ks)
       \<and> queue_ok (out_state (read_loop gl s ks))
       \<and> same_frame s (out_state (read_loop gl s ks))
       \<and> (\<forall>k. k \<notin> set ks \<or> skipped s k \<longrightarrow>
              map_of (requests (out_state (read_loop gl s ks))) k = map_of (requests s) k)
       \<and> (\<forall>e i. e \<in> set (out_effects (read_loop gl s ks)) \<longrightarrow> effect_request e = Some i \<longrightarrow>
              i \<in> set ks \<and> \<not> skipped s i)"
  using assms
proof (induction ks arbitrary: s)
  case Nil
  then show ?case by simp
next
  case (Cons k ks)
  show ?case
  proof (cases "skipped s k")
    case True
    show ?thesis
      using Cons.IH [OF Cons.prems] by (auto simp add: read_loop_skip [OF True])
  next
    case False
    then obtain q where q: "map_of (requests s) k = Some q" and unsent: "\<not> sent q"
      by (auto simp add: skipped_def split: option.splits)
    let ?b = "read_request gl s k q"
    let ?s1 = "out_state ?b"
    note step = read_request_step [OF Cons.prems q, where gl = gl]
    have eq: "read_loop gl s (k # ks) = after_effects (out_effects ?b) (read_loop gl ?s1 ks)"
      using q unsent step(1) by (rule read_loop_body)
    note ih = Cons.IH [OF step(2)]
    have other: "skipped ?s1 x = skipped s x" if "x \<noteq> k" for x
      using step(4) [OF that] by (simp add: skipped_def)
    have untouched: "map_of (requests (out_state (read_loop gl ?s1 ks))) x = map_of (requests s) x"
      if "x \<notin> set (k # ks) \<or> skipped s x" for x
    proof -
      have xk: "x \<noteq> k" using that False by auto
      then have "x \<notin> set ks \<or> skipped ?s1 x" using that other by auto
      then show ?thesis using ih step(4) [OF xk] by simp
    qed
    have effs: "i \<in> set (k # ks) \<and> \<not> skipped s i"
      if "e \<in> set (out_effects ?b) \<or> e \<in> set (out_effects (read_loop gl ?s1 ks))"
        and "effect_request e = Some i" for e i
      using that(1)
    proof
      assume "e \<in> set (out_effects ?b)"
      then have "i = k" using step(5) that(2) by blast
      then show ?thesis using False by simp
    next
      assume "e \<in> set (out_effects (read_loop gl ?s1 ks))"
      then have i: "i \<in> set ks" "\<not> skipped ?s1 i" using ih that(2) by blast+
      show ?thesis
      proof (cases "i = k")
        case True
        then show ?thesis using False by simp
      next
        case False
        then show ?thesis using i other by simp
      qed
    qed
    show ?thesis
      using ih same_frame_trans [OF step(3)] untouched effs
      by (simp add: eq)
  qed
qed

lemma read_loop_append:
  assumes "\<not> threw (read_loop gl s ks1)"
  shows "read_loop gl s (ks1 @ ks2) =
           after_effects (out_effects (read_loop gl s ks1))
             (read_loop gl (out_state (read_loop gl s ks1)) ks2)"
  using assms
proof (induction ks1 arbitrary: s)
  case Nil
  then show ?case by simp
next
  case (Cons k ks1)
  show ?case
  proof (cases "skipped s k")
    case True
    then show ?thesis
      using Cons.IH [of s] Cons.prems by (simp add: read_loop_skip)
  next
    case False
    then obtain q where q: "map_of (requests s) k = Some q" and unsent: "\<not> sent q"
      by (auto simp add: skipped_def split: option.splits)
    have nb: "\<not> threw (read_request gl s k q)"
      using Cons.prems q unsent
      by (cases "read_request gl s k q") (simp_all add: read_loop.simps(2))
    note eq = read_loop_body [OF q unsent nb]
    have "\<not> threw (read_loop gl (out_state (read_request gl s k q)) ks1)"
      using Cons.prems by (simp add: eq [of ks1])
    from Cons.IH [OF this] show ?thesis
      by (simp add: eq [of ks1] eq [of "ks1 @ ks2"] after_effects_twice)
  qed
qed


lemma same_frame_sample:
  "same_frame s s' \<Longrightarrow> sample_x s' q = sample_x s q \<and> sample_y s' q = sample_y s q"
  by (simp add: same_frame_def sample_x_def sample_y_def)

lemma read_timeout_at:
  assumes ok: "queue_ok s" and q: "map_of (requests s) r = Some q" and unsent: "\<not> sent q"
    and unlocked: "\<not> locked s lock"
  obtains s1 e1 s2 e2 where
    "queue_ok s1" and "same_frame s s1" and "map_of (requests s1) r = Some q"
    and "\<not> threw (read_request gl s1 r q)"
    and "read_timeout gl lock s =
           Returned s2 (GL_bindFramebuffer True # e1 @ out_effects (read_request gl s1 r q) @ e2
             @ [GL_bindFramebuffer False])"
    and "\<forall>e \<in> set (e1 @ e2). effect_request e \<noteq> Some r"
    and "map_of (requests s2) r = map_of (requests (out_state (read_request gl s1 r q))) r"
    and "queue_ok s2" and "same_frame s s2"
proof -
  have d: "distinct (map fst (requests s))" using ok by (simp add: queue_ok_def)
  have "r \<in> set (map fst (requests s))"
    using map_of_SomeD [OF q] by force
  then obtain ks1 ks2 where split: "map fst (requests s) = ks1 @ r # ks2"
    by (auto simp add: in_set_conv_decomp)
  have r1: "r \<notin> set ks1" and r2: "r \<notin> set ks2" using d split by auto
  let ?l1 = "read_loop gl s ks1"
  let ?s1 = "out_state ?l1"
  note a1 = read_loop_all [OF ok, of gl ks1]
  have ok1: "queue_ok ?s1" and f1: "same_frame s ?s1" and nt1: "\<not> threw ?l1" using a1 by blast+
  have q1: "map_of (requests ?s1) r = Some q" using a1 r1 q by simp
  let ?b = "read_request gl ?s1 r q"
  note step = read_request_step [OF ok1 q1, where gl = gl]
  let ?l2 = "read_loop gl (out_state ?b) ks2"
  note a2 = read_loop_all [OF step(2), of gl ks2]
  have "read_loop gl s (ks1 @ r # ks2) = after_effects (out_effects ?l1) (read_loop gl ?s1 (r # ks2))"
    using nt1 by (rule read_loop_append)
  also have "read_loop gl ?s1 (r # ks2) = after_effects (out_effects ?b) ?l2"
    using q1 unsent step(1) by (rule read_loop_body)
  also have "?l2 = Returned (out_state ?l2) (out_effects ?l2)"
    using a2 by (intro outcome_returned) blast
  finally have loop: "read_loop gl s (map fst (requests s)) =
      Returned (out_state ?l2) (out_effects ?l1 @ out_effects ?b @ out_effects ?l2)"
    by (simp add: split)
  have rt: "read_timeout gl lock s =
      Returned (out_state ?l2)
        (GL_bindFramebuffer True # out_effects ?l1 @ out_effects ?b @ out_effects ?l2
           @ [GL_bindFramebuffer False])"
    using unlocked by (simp add: read_timeout_def loop)
  have none: "\<forall>e \<in> set (out_effects ?l1 @ out_effects ?l2). effect_request e \<noteq> Some r"
    using a1 a2 r1 r2 by auto
  have keep: "map_of (requests (out_state ?l2)) r = map_of (requests (out_state ?b)) r"
    using a2 r2 by simp
  have ok2: "queue_ok (out_state ?l2)" using a2 by blast
  have f2: "same_frame s (out_state ?l2)"
    using f1 step(3) a2 by (blast intro: same_frame_trans)
  show thesis
    using that [OF ok1 f1 q1 step(1) rt none keep ok2 f2] .
qed

subsection \<open>An empty pixel\<close>

definition gl_empty :: "int \<Rightarrow> int \<Rightarrow> pixel" where
  "gl_empty px py = (0, 0, 0, 255)"

text \<open>
  C3. A pass that is not locked finds a request \<open>q\<close> in the queue, not yet sent, and the
  pixel sampled for it has the worker id 255. Then, in the effects of the pass, the sample
  is followed at once by the call of the request's \<^verbatim>\<open>resolve\<close>, with a payload that
  has no feature (\<open>None\<close>: \<^verbatim>\<open>message.feature\<close> is undefined, which \<^verbatim>\<open>== null\<close>),
  empty \<^verbatim>\<open>selection_colors\<close> and no group; nothing is posted to a worker in between, no
  other effect of the pass is about this request, and the request has left the queue.
\<close>

theorem read_empty_pixel_resolves_without_worker:
  assumes "queue_ok s" and "map_of (requests s) r = Some q" and "\<not> sent q"
    and "\<not> locked s lock"
    and "pixel_worker_id (gl (sample_x s q) (sample_y s q)) = 255"
  shows "\<exists>s' before after changed.
           read_timeout gl lock s =
             Returned s'
               (GL_bindFramebuffer True # before
                  @ [GL_readPixels (sample_x s q) (sample_y s q),
                     Resolve q \<lparr>s_feature = None, s_changed = changed, s_request = q,
                       selection_colors = [], s_group = None, update_pending = False\<rparr>]
                  @ after @ [GL_bindFramebuffer False])
           \<and> (\<forall>e \<in> set (before @ after). effect_request e \<noteq> Some r)
           \<and> map_of (requests s') r = None"
proof -
  obtain s1 e1 s2 e2 where
    ok1: "queue_ok s1" and f1: "same_frame s s1" and q1: "map_of (requests s1) r = Some q"
    and rt: "read_timeout gl lock s =
           Returned s2 (GL_bindFramebuffer True # e1 @ out_effects (read_request gl s1 r q) @ e2
             @ [GL_bindFramebuffer False])"
    and none: "\<forall>e \<in> set (e1 @ e2). effect_request e \<noteq> Some r"
    and keep: "map_of (requests s2) r = map_of (requests (out_state (read_request gl s1 r q))) r"
    using read_timeout_at [OF assms(1-4), where gl = gl] by metis
  have id: "req_id q = r" using ok1 q1 by (rule queue_ok_lookup)
  have xy: "sample_x s1 q = sample_x s q" "sample_y s1 q = sample_y s q"
    using same_frame_sample [OF f1] by simp_all
  have w: "pixel_worker_id (gl (sample_x s1 q) (sample_y s1 q)) = 255"
    using assms(5) xy by simp
  note eq = read_request_empty [where gl = gl, OF q1 id w]
  have "map_of (requests s2) r = None"
    using keep by (simp add: eq map_of_delete_same)
  then show ?thesis
    using rt none by (simp add: eq xy) blast
qed

theorem read_empty_pixel_resolves_without_worker_witness:
  "queue_ok fs_two \<and> map_of (requests fs_two) 1 = Some request1 \<and> \<not> sent request1
   \<and> \<not> locked fs_two True
   \<and> pixel_worker_id (gl_empty (sample_x fs_two request1) (sample_y fs_two request1)) = 255
   \<and> (\<exists>s' before after changed.
           read_timeout gl_empty True fs_two =
             Returned s'
               (GL_bindFramebuffer True # before
                  @ [GL_readPixels (sample_x fs_two request1) (sample_y fs_two request1),
                     Resolve request1 \<lparr>s_feature = None, s_changed = changed, s_request = request1,
                       selection_colors = [], s_group = None, update_pending = False\<rparr>]
                  @ after @ [GL_bindFramebuffer False])
           \<and> (\<forall>e \<in> set (before @ after). effect_request e \<noteq> Some 1)
           \<and> map_of (requests s') 1 = None)"
proof -
  have h1: "queue_ok fs_two"
    by (simp add: queue_ok_def fs_two_def request0_def request1_def)
  have h2: "map_of (requests fs_two) 1 = Some request1" by (simp add: fs_two_def)
  have h3: "\<not> sent request1" by (simp add: request1_def)
  have h4: "\<not> locked fs_two True" by (simp add: locked_def fs_two_def init_def)
  have h5: "pixel_worker_id (gl_empty (sample_x fs_two request1) (sample_y fs_two request1)) = 255"
    by (simp add: pixel_worker_id_def gl_empty_def)
  show ?thesis
    by (intro conjI h1 h2 h3 h4 h5
          read_empty_pixel_resolves_without_worker [where gl = gl_empty, OF h1 h2 h3 h4 h5])
qed


section \<open>Decoding a sampled pixel\<close>

lemma color_key_sum:
  assumes "0 \<le> idx" "idx < 2 ^ 24"
  shows "color_key (selector_bytes idx p) = take_bit 32 (idx + js_shl p 24)"
proof -
  let ?r = "take_bit 8 idx" and ?g = "take_bit 8 (drop_bit 8 idx)"
    and ?b = "take_bit 8 (drop_bit 16 idx)"
  have rb: "0 \<le> ?r" "?r < 256" "0 \<le> ?g" "?g < 256" "0 \<le> ?b" "?b < 256"
    using take_bit_int_less_exp [of 8] by simp_all
  have sum: "?r + ?g * 256 + ?b * 65536 = idx"
    using assms by (rule byte_sum)
  show ?thesis
    using rb sum by (simp add: selector_bytes_eq js_shl_8 js_shl_16 js_ushr_def js_ToUint32_def)
qed

lemma color_key_value:
  assumes "0 \<le> idx" "idx < 2 ^ 24" "0 \<le> p" "p < 256"
  shows "color_key (selector_bytes idx p) = idx + p * 2 ^ 24"
proof -
  have "take_bit 32 (idx + js_shl p 24) = take_bit 32 (take_bit 32 idx + take_bit 32 (js_shl p 24))"
    by (simp only: take_bit_add)
  also have "\<dots> = take_bit 32 (idx + p * 2 ^ 24)"
    using assms by (simp add: js_shl_24_byte take_bit_int_eq_self)
  also have "\<dots> = idx + p * 2 ^ 24"
    using assms by (intro take_bit_int_eq_self) auto
  finally show ?thesis using assms by (simp add: color_key_sum)
qed

definition static_w1 :: selection_static where
  "static_w1 = setPrefix static_init 1"

definition gl_worker1 :: "int \<Rightarrow> int \<Rightarrow> pixel" where
  "gl_worker1 px py = (1, 0, 0, 1)"

text \<open>
  C2. A worker whose counter, once incremented, is below \<open>2 ^ 24\<close> and whose prefix is
  below 255 calls \<^verbatim>\<open>createSelector\<close>; a pass that is not locked samples, for a queued
  request not yet sent, a pixel whose four bytes are the bytes \<open>(ir, ig, ib, ia)\<close> of that
  call. Then the key computed from the pixel is the key under which \<^verbatim>\<open>createSelector\<close>
  stored the entry, it is the counter plus the prefix shifted by 24 bits, the worker id
  read from the alpha byte is the prefix, and, the worker kept under that id being
  \<open>wk\<close>, the sample is followed at once by the message to \<open>wk\<close> that carries the id of
  the request and that key; no other effect of the pass is about the request.
\<close>

theorem read_decodes_key:
  assumes "queue_ok s" and "map_of (requests s) r = Some q" and "\<not> sent q"
    and "\<not> locked s lock"
    and "0 \<le> map_index w" and "map_index w + 1 < 2 ^ 24"
    and "0 \<le> map_prefix w" and "map_prefix w < 255"
    and "gl (sample_x s q) (sample_y s q) = (p0, p1, p2, p3)"
    and "(uint p0, uint p1, uint p2, uint p3) = selector_bytes (map_index w + 1) (map_prefix w)"
    and "workers_at (workers s) (map_prefix w) = Some wk"
  shows "pixel_key (gl (sample_x s q) (sample_y s q)) = fst (createSelector w t)
       \<and> sel_map (snd (createSelector w t)) (fst (createSelector w t)) \<noteq> None
       \<and> fst (createSelector w t) = (map_index w + 1) + map_prefix w * 2 ^ 24
       \<and> pixel_worker_id (gl (sample_x s q) (sample_y s q)) = map_prefix w
       \<and> (\<exists>s' before after.
             read_timeout gl lock s =
               Returned s'
                 (GL_bindFramebuffer True # before
                    @ [GL_readPixels (sample_x s q) (sample_y s q),
                       PostMessage (ToWorker wk) ''self.getFeatureSelection''
                         (FeatureQuery r (fst (createSelector w t))) Then_finishRead]
                    @ after @ [GL_bindFramebuffer False])
             \<and> (\<forall>e \<in> set (before @ after). effect_request e \<noteq> Some r))"
proof -
  let ?px = "gl (sample_x s q) (sample_y s q)"
  have "pixel_key ?px = color_key (uint p0, uint p1, uint p2, uint p3)"
    using assms(9) by (simp add: pixel_key_def del: color_key.simps)
  then have key: "pixel_key ?px = fst (createSelector w t)"
    by (simp only: assms(10) createSelector_key)
  have stored: "sel_map (snd (createSelector w t)) (fst (createSelector w t)) \<noteq> None"
    by (simp add: createSelector_def Let_def split_beta)
  have val: "fst (createSelector w t) = (map_index w + 1) + map_prefix w * 2 ^ 24"
    using assms(5-8) by (simp add: createSelector_key color_key_value)
  have wid: "pixel_worker_id ?px = map_prefix w"
    using assms(9,10) by (simp add: pixel_worker_id_def selector_bytes_def)
  obtain s1 e1 s2 e2 where
    ok1: "queue_ok s1" and f1: "same_frame s s1" and q1: "map_of (requests s1) r = Some q"
    and rt: "read_timeout gl lock s =
           Returned s2 (GL_bindFramebuffer True # e1 @ out_effects (read_request gl s1 r q) @ e2
             @ [GL_bindFramebuffer False])"
    and none: "\<forall>e \<in> set (e1 @ e2). effect_request e \<noteq> Some r"
    using read_timeout_at [OF assms(1-4), where gl = gl] by metis
  have id: "req_id q = r" using ok1 q1 by (rule queue_ok_lookup)
  have xy: "sample_x s1 q = sample_x s q" "sample_y s1 q = sample_y s q"
    using same_frame_sample [OF f1] by simp_all
  have w1: "pixel_worker_id (gl (sample_x s1 q) (sample_y s1 q)) \<noteq> 255"
    using wid assms(8) xy by simp
  have w2: "workers_at (workers s1) (pixel_worker_id (gl (sample_x s1 q) (sample_y s1 q))) = Some wk"
    using wid assms(11) xy f1 by (simp add: same_frame_def)
  note eq = read_request_dispatch [where gl = gl and r = r, OF w1 w2]
  have "\<exists>s' before after.
          read_timeout gl lock s =
            Returned s'
              (GL_bindFramebuffer True # before
                 @ [GL_readPixels (sample_x s q) (sample_y s q),
                    PostMessage (ToWorker wk) ''self.getFeatureSelection''
                      (FeatureQuery r (fst (createSelector w t))) Then_finishRead]
                 @ after @ [GL_bindFramebuffer False])
          \<and> (\<forall>e \<in> set (before @ after). effect_request e \<noteq> Some r)"
    using rt none by (simp add: eq xy id key) blast
  then show ?thesis using key stored val wid by blast
qed

theorem read_decodes_key_witness:
  "queue_ok fs_two \<and> map_of (requests fs_two) 1 = Some request1 \<and> \<not> sent request1
   \<and> \<not> locked fs_two True
   \<and> 0 \<le> map_index static_w1 \<and> map_index static_w1 + 1 < 2 ^ 24
   \<and> 0 \<le> map_prefix static_w1 \<and> map_prefix static_w1 < 255
   \<and> gl_worker1 (sample_x fs_two request1) (sample_y fs_two request1) = (1, 0, 0, 1)
   \<and> (uint (1 :: 8 word), uint (0 :: 8 word), uint (0 :: 8 word), uint (1 :: 8 word))
        = selector_bytes (map_index static_w1 + 1) (map_prefix static_w1)
   \<and> workers_at (workers fs_two) (map_prefix static_w1) = Some (Worker 1)
   \<and> pixel_key (gl_worker1 (sample_x fs_two request1) (sample_y fs_two request1))
        = fst (createSelector static_w1 tile0)
   \<and> fst (createSelector static_w1 tile0) = 16777217
   \<and> pixel_worker_id (gl_worker1 (sample_x fs_two request1) (sample_y fs_two request1)) = 1"
proof -
  have h1: "queue_ok fs_two"
    by (simp add: queue_ok_def fs_two_def request0_def request1_def)
  have h2: "map_of (requests fs_two) 1 = Some request1" by (simp add: fs_two_def)
  have h3: "\<not> sent request1" by (simp add: request1_def)
  have h4: "\<not> locked fs_two True" by (simp add: locked_def fs_two_def init_def)
  have h5: "0 \<le> map_index static_w1" by (simp add: static_w1_def setPrefix_def static_init_def)
  have h6: "map_index static_w1 + 1 < 2 ^ 24"
    by (simp add: static_w1_def setPrefix_def static_init_def)
  have h7: "0 \<le> map_prefix static_w1" by (simp add: static_w1_def setPrefix_def)
  have h8: "map_prefix static_w1 < 255" by (simp add: static_w1_def setPrefix_def)
  have h9: "gl_worker1 (sample_x fs_two request1) (sample_y fs_two request1) = (1, 0, 0, 1)"
    by (simp add: gl_worker1_def)
  have h10: "(uint (1 :: 8 word), uint (0 :: 8 word), uint (0 :: 8 word), uint (1 :: 8 word))
        = selector_bytes (map_index static_w1 + 1) (map_prefix static_w1)"
    by (simp add: static_w1_def setPrefix_def static_init_def selector_bytes_eq)
  have h11: "workers_at (workers fs_two) (map_prefix static_w1) = Some (Worker 1)"
    by (simp add: workers_at_def fs_two_def init_def static_w1_def setPrefix_def)
  note c = read_decodes_key [where gl = gl_worker1 and t = tile0,
      OF h1 h2 h3 h4 h5 h6 h7 h8 h9 h10 h11]
  have c1: "pixel_key (gl_worker1 (sample_x fs_two request1) (sample_y fs_two request1))
        = fst (createSelector static_w1 tile0)"
    using c by (rule conjunct1)
  have "fst (createSelector static_w1 tile0)
        = (map_index static_w1 + 1) + map_prefix static_w1 * 2 ^ 24"
    using c by blast
  then have c2: "fst (createSelector static_w1 tile0) = 16777217"
    by (simp add: static_w1_def setPrefix_def static_init_def)
  have "pixel_worker_id (gl_worker1 (sample_x fs_two request1) (sample_y fs_two request1))
        = map_prefix static_w1"
    using c by blast
  then have c3: "pixel_worker_id (gl_worker1 (sample_x fs_two request1) (sample_y fs_two request1)) = 1"
    by (simp add: static_w1_def setPrefix_def)
  show ?thesis
    by (intro conjI h1 h2 h3 h4 h5 h6 h7 h8 h9 h10 h11 c1 c2 c3)
qed


section \<open>A request whose worker is gone\<close>

text \<open>
  The calls that reach the instance on the main thread, and what each does. A reply
  \<open>reply_for r\<close> is a call of \<^verbatim>\<open>finishRead\<close>, or of the function it chains, that names
  the request \<open>r\<close>; \<open>stuck r q\<close> says that \<open>q\<close> sits in the queue under \<open>r\<close> with its
  \<open>sent\<close> flag set, and that the ids handed out have passed \<open>r\<close>.
\<close>

datatype main_call =
    GetFeatureAt point "string option"
  | GetFeatureAt_then "string option" selection
  | ClearPendingRequests
  | Read nat
  | Read_timeout "int \<Rightarrow> int \<Rightarrow> pixel" bool
  | FinishRead message
  | FinishRead_then js_any bool request group_assignment int colors
  | UpdateState string
  | UpdateState_then string nat colors
  | ClearState string

fun main_step :: "FeatureSelection \<Rightarrow> main_call \<Rightarrow> FeatureSelection \<times> effect list" where
  "main_step s (GetFeatureAt p st) = (getFeatureAt s p st, [])"
| "main_step s (GetFeatureAt_then st sel) = (getFeatureAt_then s st sel, [])"
| "main_step s ClearPendingRequests = clearPendingRequests s"
| "main_step s (Read h) = read s h"
| "main_step s (Read_timeout gl lock) =
     (out_state (read_timeout gl lock s), out_effects (read_timeout gl lock s))"
| "main_step s (FinishRead m) = (out_state (finishRead s m), out_effects (finishRead s m))"
| "main_step s (FinishRead_then f changed q g i cols) = finishRead_then s f changed q g i cols"
| "main_step s (UpdateState k) = snd (updateState s k)"
| "main_step s (UpdateState_then k ref cols) = updateState_then s k ref cols"
| "main_step s (ClearState k) = (clearState s k, [])"

fun main_run :: "FeatureSelection \<Rightarrow> main_call list \<Rightarrow> FeatureSelection \<times> effect list" where
  "main_run s [] = (s, [])"
| "main_run s (c # cs) =
     (let (s1, es1) = main_step s c; (s2, es2) = main_run s1 cs in (s2, es1 @ es2))"

text \<open>A reply that names the request \<open>r\<close>.\<close>

fun reply_for :: "int \<Rightarrow> main_call \<Rightarrow> bool" where
  "reply_for r (FinishRead m) = (msg_id m = r)"
| "reply_for r (FinishRead_then f changed q g i cols) = (i = r \<or> req_id q = r)"
| "reply_for r c = False"

definition stuck :: "int \<Rightarrow> request \<Rightarrow> FeatureSelection \<Rightarrow> bool" where
  "stuck r q s \<longleftrightarrow>
     queue_ok s \<and> map_of (requests s) r = Some q \<and> sent q
     \<and> (\<exists>n. selection_request_id s = Some n \<and> r \<le> n)"

lemma queue_ok_requests: "requests s' = requests s \<Longrightarrow> queue_ok s' = queue_ok s"
  by (simp add: queue_ok_def)

lemma stuck_same:
  "stuck r q s \<Longrightarrow> requests s' = requests s \<Longrightarrow> selection_request_id s' = selection_request_id s
     \<Longrightarrow> stuck r q s'"
  by (simp add: stuck_def queue_ok_def)

lemma stuck_getFeatureAt: "stuck r q s \<Longrightarrow> stuck r q (getFeatureAt s p st)"
proof -
  assume a: "stuck r q s"
  then obtain n where n: "selection_request_id s = Some n" "r \<le> n" by (auto simp add: stuck_def)
  define i where "i = (if n + 1 = 0 then 0 else n + 1)"
  have i: "i = n + 1" by (simp add: i_def)
  have req: "requests (getFeatureAt s p st) =
      AList.update i \<lparr>req_id = i, req_point = p, req_state = st, sent = False\<rparr> (requests s)"
    and sid: "selection_request_id (getFeatureAt s p st) = Some i"
    using n by (simp_all add: getFeatureAt_def i_def Let_def)
  have d: "distinct (map fst (requests (getFeatureAt s p st)))"
    using a by (simp add: req stuck_def queue_ok_def AList.distinct_update)
  have ids: "\<forall>(k, q') \<in> set (requests (getFeatureAt s p st)). req_id q' = k"
  proof -
    have "set (AList.update i v xs) \<subseteq> insert (i, v) (set xs)" for v :: request and xs
      by (induction xs) auto
    then show ?thesis using a by (fastforce simp add: req stuck_def queue_ok_def)
  qed
  have "map_of (requests (getFeatureAt s p st)) r = Some q"
    using a n i by (simp add: req stuck_def AList.update_conv')
  then show ?thesis
    using a d ids n i by (simp add: stuck_def queue_ok_def sid)
qed


lemma read_timeout_all:
  assumes "queue_ok s"
  shows "\<not> threw (read_timeout gl lock s)
       \<and> queue_ok (out_state (read_timeout gl lock s))
       \<and> same_frame s (out_state (read_timeout gl lock s))
       \<and> (\<forall>k. skipped s k \<longrightarrow>
              map_of (requests (out_state (read_timeout gl lock s))) k = map_of (requests s) k)
       \<and> (\<forall>e i. e \<in> set (out_effects (read_timeout gl lock s)) \<longrightarrow> effect_request e = Some i \<longrightarrow>
              \<not> skipped s i)"
proof (cases "locked s lock")
  case True
  then show ?thesis using assms by (simp add: read_timeout_def)
next
  case False
  let ?l = "read_loop gl s (map fst (requests s))"
  note a = read_loop_all [OF assms, of gl "map fst (requests s)"]
  obtain s' es where l: "?l = Returned s' es"
    using a by (cases ?l) auto
  have "read_timeout gl lock s =
      Returned s' (GL_bindFramebuffer True # es @ [GL_bindFramebuffer False])"
    using False by (simp add: read_timeout_def l)
  then show ?thesis using a by (auto simp add: l)
qed

lemma stuck_skipped: "stuck r q s \<Longrightarrow> skipped s r"
  by (simp add: stuck_def skipped_def)

lemma stuck_read_timeout:
  assumes "stuck r q s"
  shows "stuck r q (out_state (read_timeout gl lock s))"
    and "\<forall>e \<in> set (out_effects (read_timeout gl lock s)). effect_request e \<noteq> Some r"
proof -
  have ok: "queue_ok s" using assms by (simp add: stuck_def)
  note a = read_timeout_all [OF ok, of gl lock]
  have "map_of (requests (out_state (read_timeout gl lock s))) r = Some q"
    using a stuck_skipped [OF assms] assms by (simp add: stuck_def)
  moreover have "selection_request_id (out_state (read_timeout gl lock s)) = selection_request_id s"
    using a by (simp add: same_frame_def)
  ultimately show "stuck r q (out_state (read_timeout gl lock s))"
    using a assms by (simp add: stuck_def)
  show "\<forall>e \<in> set (out_effects (read_timeout gl lock s)). effect_request e \<noteq> Some r"
    using a stuck_skipped [OF assms] by blast
qed

lemma stuck_clearPendingRequests:
  assumes "stuck r q s"
  shows "stuck r q (fst (clearPendingRequests s))"
    and "\<forall>e \<in> set (snd (clearPendingRequests s)). effect_request e \<noteq> Some r"
proof -
  have ok: "queue_ok s" and q: "map_of (requests s) r = Some q" and sq: "sent q"
    using assms by (simp_all add: stuck_def)
  have d: "distinct (map fst (requests s))" using ok by (simp add: queue_ok_def)
  note eq = clearPendingRequests_char [OF d]
  have "map_of (filter (\<lambda>(k, q). sent q) (requests s)) r = Some q"
    using q sq by (simp add: map_of_filter_in)
  moreover have "distinct (map fst (filter (\<lambda>(k, q). sent q) (requests s)))"
    using d by (simp add: distinct_map_filter)
  ultimately show "stuck r q (fst (clearPendingRequests s))"
    using assms by (auto simp add: eq stuck_def queue_ok_def)
  show "\<forall>e \<in> set (snd (clearPendingRequests s)). effect_request e \<noteq> Some r"
  proof
    fix e assume "e \<in> set (snd (clearPendingRequests s))"
    then obtain k q' where kq: "(k, q') \<in> set (requests s)" "\<not> sent q'"
      and e: "e = Reject q' \<lparr>rej_request = q'\<rparr>"
      by (auto simp add: eq)
    have "req_id q' = k" using ok kq(1) by (auto simp add: queue_ok_def)
    moreover have "k \<noteq> r"
    proof
      assume "k = r"
      then have "q' = q" using d kq(1) q by (simp add: map_of_eq_Some_iff)
      then show False using kq(2) sq by simp
    qed
    ultimately show "effect_request e \<noteq> Some r" using e by simp
  qed
qed

lemma stuck_finishRead:
  assumes "stuck r q s" "msg_id m \<noteq> r"
  shows "stuck r q (out_state (finishRead s m))"
    and "\<forall>e \<in> set (out_effects (finishRead s m)). effect_request e \<noteq> Some r"
proof -
  have ok: "queue_ok s" and q: "map_of (requests s) r = Some q"
    using assms by (simp_all add: stuck_def)
  have "stuck r q (out_state (finishRead s m))
      \<and> (\<forall>e \<in> set (out_effects (finishRead s m)). effect_request e \<noteq> Some r)"
  proof (cases "map_of (requests s) (msg_id m)")
    case None
    then show ?thesis using assms(1) by (simp add: finishRead_def)
  next
    case (Some q')
    have id: "req_id q' = msg_id m" using ok Some by (rule queue_ok_lookup)
    show ?thesis
    proof (cases "js_truthy (msg_feature m)")
      case True
      have "stuck r q (s\<lparr>feature := msg_feature m\<rparr>)"
        using assms(1) by (rule stuck_same) simp_all
      then show ?thesis
        using Some True by (simp add: finishRead_def Let_def split: option.splits)
    next
      case False
      let ?s' = "s\<lparr>feature := msg_feature m,
                    requests := AList.delete (msg_id m) (requests s)\<rparr>"
      have "queue_ok ?s'" by (rule queue_ok_delete [OF ok, where k = "msg_id m"]) simp
      moreover have "map_of (requests ?s') r = Some q"
        using q assms(2) by (simp add: map_of_delete_other)
      ultimately have "stuck r q ?s'" using assms(1) by (simp add: stuck_def)
      then show ?thesis
        using Some False id assms(2) by (simp add: finishRead_def Let_def)
    qed
  qed
  then show "stuck r q (out_state (finishRead s m))"
    and "\<forall>e \<in> set (out_effects (finishRead s m)). effect_request e \<noteq> Some r"
    by blast+
qed

lemma stuck_finishRead_then:
  assumes "stuck r q s" "i \<noteq> r" "req_id q' \<noteq> r"
  shows "stuck r q (fst (finishRead_then s f changed q' g i cols))"
    and "\<forall>e \<in> set (snd (finishRead_then s f changed q' g i cols)). effect_request e \<noteq> Some r"
proof -
  have ok: "queue_ok s" and q: "map_of (requests s) r = Some q"
    using assms by (simp_all add: stuck_def)
  let ?s' = "s\<lparr>requests := AList.delete i (requests s)\<rparr>"
  have "queue_ok ?s'" by (rule queue_ok_delete [OF ok, where k = i]) simp
  moreover have "map_of (requests ?s') r = Some q"
    using q assms(2) by (simp add: map_of_delete_other)
  ultimately show "stuck r q (fst (finishRead_then s f changed q' g i cols))"
    using assms(1) by (simp add: stuck_def finishRead_then_def)
  show "\<forall>e \<in> set (snd (finishRead_then s f changed q' g i cols)). effect_request e \<noteq> Some r"
    using assms(3) by (simp add: finishRead_then_def)
qed

lemma stuck_updateState:
  assumes "stuck r q s"
  shows "stuck r q (fst (snd (updateState s k)))"
    and "\<forall>e \<in> set (snd (snd (updateState s k))). effect_request e \<noteq> Some r"
proof -
  have "requests (fst (snd (updateState s k))) = requests s
      \<and> selection_request_id (fst (snd (updateState s k))) = selection_request_id s
      \<and> (\<forall>e \<in> set (snd (snd (updateState s k))). effect_request e \<noteq> Some r)"
    by (simp add: updateState_def split: option.splits prod.splits)
  then show "stuck r q (fst (snd (updateState s k)))"
    and "\<forall>e \<in> set (snd (snd (updateState s k))). effect_request e \<noteq> Some r"
    using assms stuck_same by blast+
qed

lemma stuck_step:
  assumes "stuck r q s" "\<not> reply_for r c"
  shows "stuck r q (fst (main_step s c))
       \<and> (\<forall>e \<in> set (snd (main_step s c)). effect_request e \<noteq> Some r)"
proof (cases c)
  case (GetFeatureAt p st)
  then show ?thesis using assms by (simp add: stuck_getFeatureAt)
next
  case (GetFeatureAt_then st sel)
  have "stuck r q (getFeatureAt_then s st sel)"
    using assms(1) by (rule stuck_same) (simp_all add: getFeatureAt_then_def split: option.splits)
  then show ?thesis using GetFeatureAt_then by simp
next
  case ClearPendingRequests
  then show ?thesis using stuck_clearPendingRequests [OF assms(1)] by simp
next
  case (Read h)
  have "stuck r q (fst (read s h))"
    using assms(1) by (rule stuck_same) (simp_all add: read_def)
  then show ?thesis using Read by (auto simp add: read_def split: option.splits)
next
  case (Read_timeout gl lock)
  then show ?thesis using stuck_read_timeout [OF assms(1), of gl lock] by simp
next
  case (FinishRead m)
  then show ?thesis using stuck_finishRead [OF assms(1), of m] assms(2) by simp
next
  case (FinishRead_then f changed q' g i cols)
  then show ?thesis
    using stuck_finishRead_then [OF assms(1), of i q' f changed g cols] assms(2) by simp
next
  case (UpdateState k)
  then show ?thesis using stuck_updateState [OF assms(1), of k] by simp
next
  case (UpdateState_then k ref cols)
  have "stuck r q (fst (updateState_then s k ref cols))"
    using assms(1) by (rule stuck_same) (simp_all add: updateState_then_def)
  then show ?thesis using UpdateState_then by (simp add: updateState_then_def)
next
  case (ClearState k)
  have "stuck r q (clearState s k)"
    using assms(1) by (rule stuck_same) (simp_all add: clearState_def)
  then show ?thesis using ClearState by simp
qed

lemma stuck_run:
  assumes "stuck r q s" "\<forall>c \<in> set cs. \<not> reply_for r c"
  shows "stuck r q (fst (main_run s cs))
       \<and> (\<forall>e \<in> set (snd (main_run s cs)). effect_request e \<noteq> Some r)"
  using assms
proof (induction cs arbitrary: s)
  case Nil
  then show ?case by simp
next
  case (Cons c cs)
  have 1: "stuck r q (fst (main_step s c))"
    and 2: "\<forall>e \<in> set (snd (main_step s c)). effect_request e \<noteq> Some r"
    using stuck_step [OF Cons.prems(1), of c] Cons.prems(2) by simp_all
  have 3: "stuck r q (fst (main_run (fst (main_step s c)) cs))
       \<and> (\<forall>e \<in> set (snd (main_run (fst (main_step s c)) cs)). effect_request e \<noteq> Some r)"
    using Cons.IH [OF 1] Cons.prems(2) by simp
  show ?case using 2 3 by (auto simp add: split_beta)
qed

definition gl_lost :: "int \<Rightarrow> int \<Rightarrow> pixel" where
  "gl_lost px py = (1, 0, 0, 7)"

definition later_calls :: "main_call list" where
  "later_calls =
     [Read 1, Read_timeout gl_lost True, ClearPendingRequests,
      GetFeatureAt \<lparr>point_x = 0, point_y = 0\<rparr> None,
      FinishRead \<lparr>msg_id = 0, msg_feature = None, msg_group = None\<rparr>,
      Read_timeout gl_empty True]"

text \<open>
  C10. A pass that is not locked samples, for a queued request \<open>q\<close> under \<open>r\<close> not yet
  sent, a pixel whose worker id is not 255 and names no worker. The pass returns, the
  request is in the queue with \<open>sent\<close> set, and no effect of the pass is about it: no
  message carries its id, and it is neither resolved nor rejected. After that, whatever
  calls reach the instance (further passes, \<^verbatim>\<open>clearPendingRequests\<close>, new requests,
  replies for other requests, state updates), the request stays in the queue as it is and
  no effect is about it; only a reply that names it is excluded, and none was asked for.
\<close>

theorem read_no_worker_strands_request:
  assumes "queue_ok s" and "map_of (requests s) r = Some q" and "\<not> sent q"
    and "\<not> locked s lock"
    and "pixel_worker_id (gl (sample_x s q) (sample_y s q)) \<noteq> 255"
    and "workers_at (workers s) (pixel_worker_id (gl (sample_x s q) (sample_y s q))) = None"
    and "selection_request_id s = Some n" and "r \<le> n"
    and "list_all (\<lambda>c. \<not> reply_for r c) cs"
  shows "\<not> threw (read_timeout gl lock s)
       \<and> map_of (requests (out_state (read_timeout gl lock s))) r = Some (q\<lparr>sent := True\<rparr>)
       \<and> Some r \<notin> effect_request ` set (out_effects (read_timeout gl lock s))
       \<and> map_of (requests (fst (main_run (out_state (read_timeout gl lock s)) cs))) r
           = Some (q\<lparr>sent := True\<rparr>)
       \<and> Some r \<notin> effect_request ` set (snd (main_run (out_state (read_timeout gl lock s)) cs))"
proof -
  obtain s1 e1 s2 e2 where
    ok1: "queue_ok s1" and f1: "same_frame s s1" and q1: "map_of (requests s1) r = Some q"
    and rt: "read_timeout gl lock s =
           Returned s2 (GL_bindFramebuffer True # e1 @ out_effects (read_request gl s1 r q) @ e2
             @ [GL_bindFramebuffer False])"
    and none: "\<forall>e \<in> set (e1 @ e2). effect_request e \<noteq> Some r"
    and keep: "map_of (requests s2) r = map_of (requests (out_state (read_request gl s1 r q))) r"
    and ok2: "queue_ok s2" and f2: "same_frame s s2"
    using read_timeout_at [OF assms(1-4), where gl = gl] by metis
  have xy: "sample_x s1 q = sample_x s q" "sample_y s1 q = sample_y s q"
    using same_frame_sample [OF f1] by simp_all
  have w1: "pixel_worker_id (gl (sample_x s1 q) (sample_y s1 q)) \<noteq> 255"
    using assms(5) xy by simp
  have w2: "workers_at (workers s1) (pixel_worker_id (gl (sample_x s1 q) (sample_y s1 q))) = None"
    using assms(6) xy f1 by (simp add: same_frame_def)
  note eq = read_request_no_worker [where gl = gl and r = r, OF w1 w2]
  have q2: "map_of (requests s2) r = Some (q\<lparr>sent := True\<rparr>)"
    using keep q1 by (simp add: eq map_of_map_entry_same)
  have pass: "\<forall>e \<in> set (out_effects (read_timeout gl lock s)). effect_request e \<noteq> Some r"
    using none by (auto simp add: rt eq)
  have "stuck r (q\<lparr>sent := True\<rparr>) s2"
    using ok2 q2 f2 assms(7,8) by (simp add: stuck_def same_frame_def)
  moreover have "\<forall>c \<in> set cs. \<not> reply_for r c"
    using assms(9) by (simp add: list_all_iff)
  ultimately have later:
    "map_of (requests (fst (main_run s2 cs))) r = Some (q\<lparr>sent := True\<rparr>)"
    "\<forall>e \<in> set (snd (main_run s2 cs)). effect_request e \<noteq> Some r"
    using stuck_run [of r "q\<lparr>sent := True\<rparr>" s2 cs] by (simp_all add: stuck_def)
  show ?thesis
    using q2 pass later by (auto simp add: rt)
qed

theorem read_no_worker_strands_request_witness:
  "queue_ok fs_two \<and> map_of (requests fs_two) 1 = Some request1 \<and> \<not> sent request1
   \<and> \<not> locked fs_two True
   \<and> pixel_worker_id (gl_lost (sample_x fs_two request1) (sample_y fs_two request1)) \<noteq> 255
   \<and> workers_at (workers fs_two)
        (pixel_worker_id (gl_lost (sample_x fs_two request1) (sample_y fs_two request1))) = None
   \<and> selection_request_id fs_two = Some 1 \<and> (1 :: int) \<le> 1
   \<and> list_all (\<lambda>c. \<not> reply_for 1 c) later_calls
   \<and> map_of (requests (out_state (read_timeout gl_lost True fs_two))) 1
        = Some (request1\<lparr>sent := True\<rparr>)
   \<and> Some 1 \<notin> effect_request ` set (out_effects (read_timeout gl_lost True fs_two))
   \<and> map_of (requests (fst (main_run (out_state (read_timeout gl_lost True fs_two)) later_calls))) 1
        = Some (request1\<lparr>sent := True\<rparr>)
   \<and> Some 1 \<notin> effect_request `
        set (snd (main_run (out_state (read_timeout gl_lost True fs_two)) later_calls))"
proof -
  have h1: "queue_ok fs_two"
    by (simp add: queue_ok_def fs_two_def request0_def request1_def)
  have h2: "map_of (requests fs_two) 1 = Some request1" by (simp add: fs_two_def)
  have h3: "\<not> sent request1" by (simp add: request1_def)
  have h4: "\<not> locked fs_two True" by (simp add: locked_def fs_two_def init_def)
  have h5: "pixel_worker_id (gl_lost (sample_x fs_two request1) (sample_y fs_two request1)) \<noteq> 255"
    by (simp add: pixel_worker_id_def gl_lost_def)
  have h6: "workers_at (workers fs_two)
        (pixel_worker_id (gl_lost (sample_x fs_two request1) (sample_y fs_two request1))) = None"
    by (simp add: pixel_worker_id_def gl_lost_def workers_at_def fs_two_def init_def)
  have h7: "selection_request_id fs_two = Some 1" by (simp add: fs_two_def)
  have h8: "(1 :: int) \<le> 1" by simp
  have h9: "list_all (\<lambda>c. \<not> reply_for 1 c) later_calls" by (simp add: later_calls_def)
  note c = read_no_worker_strands_request [where gl = gl_lost, OF h1 h2 h3 h4 h5 h6 h7 h8 h9]
  show ?thesis
    by (intro conjI h1 h2 h3 h4 h5 h6 h7 h8 h9) (use c in blast)+
qed


section \<open>Selection groups\<close>

text \<open>
  \<open>assigned_group\<close> reads the group of the entry a call returned; \<open>group_bytes\<close> is the
  index colour \<^verbatim>\<open>getSelector\<close> builds from the incremented group counter.
\<close>

definition assigned_group :: "int \<times> selection_static \<Rightarrow> group_assignment option" where
  "assigned_group r = Option.bind (sel_map (snd r) (fst r)) sel_group"

definition group_bytes :: "int \<Rightarrow> int list" where
  "group_bytes gi = [js_and gi 255, js_and (js_shr gi 8) 255, js_and (js_shr gi 16) 255, 255]"

definition draw_roads :: draw where
  "draw_roads = \<lparr>selection_prop = PropName ''id'', selection_group = ''roads'',
                  hover_color = None, click_color = None\<rparr>"

definition ctx0 :: ctx where
  "ctx0 = \<lparr>ctx_source = Some (JStr ''osm''), ctx_layer = Some (JStr ''roads''), ctx_layers = None\<rparr>"

definition feature_str0 :: feature_in where
  "feature_str0 = \<lparr>properties = [(''id'', Some (JStr ''0''))]\<rparr>"

definition feature_num0 :: feature_in where
  "feature_num0 = \<lparr>properties = [(''id'', Some (JNum (Decimal False 0 0)))]\<rparr>"

definition feature_str7 :: feature_in where
  "feature_str7 = \<lparr>properties = [(''id'', Some (JStr ''7''))]\<rparr>"

definition feature_num7 :: feature_in where
  "feature_num7 =
     \<lparr>properties = [(''kind'', Some (JStr ''path'')), (''id'', Some (JNum (Decimal False 7 1)))]\<rparr>"

lemma createSelector_groups:
  "groups (snd (createSelector s t)) = groups s"
  "group_index (snd (createSelector s t)) = group_index s"
  "sel_map (snd (createSelector s t)) (fst (createSelector s t)) \<noteq> None"
  by (simp_all add: createSelector_def Let_def split_beta)

lemma getSelector_assigned:
  "assigned_group (getSelector s f d t c) =
     Some \<lparr>grp_index =
             (if js_truthy (group_value_of f d c) then
                (case groups s (group_key_of d (group_value_of f d c)) of
                   Some g \<Rightarrow> g
                 | None \<Rightarrow> group_bytes (group_index s + 1))
              else [255, 255, 255, 255]),
           grp_key = group_key_of d (group_value_of f d c),
           grp_value = group_value_of f d c\<rparr>"
proof -
  obtain k s1 where cs: "createSelector s t = (k, s1)" by (cases "createSelector s t")
  have g1: "groups s1 = groups s" "group_index s1 = group_index s" and m1: "sel_map s1 k \<noteq> None"
    using createSelector_groups [of s t] by (simp_all add: cs)
  then obtain e where e: "sel_map s1 k = Some e" by auto
  show ?thesis
    using g1 e
    by (simp add: getSelector_def assigned_group_def cs Let_def group_bytes_def
          split: option.splits)
qed

lemma getSelector_groups:
  "groups (snd (getSelector s f d t c)) =
     (if js_truthy (group_value_of f d c) \<and> groups s (group_key_of d (group_value_of f d c)) = None
      then (groups s)(group_key_of d (group_value_of f d c) \<mapsto> group_bytes (group_index s + 1))
      else groups s)"
  and getSelector_group_index:
  "group_index (snd (getSelector s f d t c)) =
     (if js_truthy (group_value_of f d c) \<and> groups s (group_key_of d (group_value_of f d c)) = None
      then group_index s + 1 else group_index s)"
proof -
  obtain k s1 where cs: "createSelector s t = (k, s1)" by (cases "createSelector s t")
  have g1: "groups s1 = groups s" "group_index s1 = group_index s"
    using createSelector_groups [of s t] by (simp_all add: cs)
  show "groups (snd (getSelector s f d t c)) =
     (if js_truthy (group_value_of f d c) \<and> groups s (group_key_of d (group_value_of f d c)) = None
      then (groups s)(group_key_of d (group_value_of f d c) \<mapsto> group_bytes (group_index s + 1))
      else groups s)"
    using g1 by (auto simp add: getSelector_def cs Let_def group_bytes_def split: option.splits)
  show "group_index (snd (getSelector s f d t c)) =
     (if js_truthy (group_value_of f d c) \<and> groups s (group_key_of d (group_value_of f d c)) = None
      then group_index s + 1 else group_index s)"
    using g1 by (auto simp add: getSelector_def cs Let_def group_bytes_def split: option.splits)
qed

lemma run_call_groups_kept:
  assumes "c \<noteq> Reset" "groups s gk = Some g"
  shows "groups (snd (run_call s c)) gk = Some g"
  using assms
  by (cases c)
     (auto simp add: split_beta createSelector_groups getSelector_groups clearTile_def
        setPrefix_def)

lemma run_calls_groups_kept:
  assumes "Reset \<notin> set cs" "groups s gk = Some g"
  shows "groups (snd (run_calls s cs)) gk = Some g"
  using assms
proof (induction cs arbitrary: s)
  case Nil
  then show ?case by simp
next
  case (Cons c cs)
  have "groups (snd (run_call s c)) gk = Some g"
    using Cons.prems by (intro run_call_groups_kept) auto
  then have "groups (snd (run_calls (snd (run_call s c)) cs)) gk = Some g"
    using Cons.prems by (intro Cons.IH) auto
  then show ?case by (simp add: split_beta)
qed

lemma getSelector_registers:
  assumes "js_truthy (group_value_of f d c)"
  shows "groups (snd (getSelector s f d t c)) (group_key_of d (group_value_of f d c)) =
           map_option grp_index (assigned_group (getSelector s f d t c))"
  using assms by (auto simp add: getSelector_groups getSelector_assigned split: option.splits)

lemma sample_group_values:
  "group_value_of feature_str0 draw_roads ctx0 = Some (JStr ''0'')"
  "group_value_of feature_num0 draw_roads ctx0 = Some (JNum (Decimal False 0 0))"
  "group_value_of feature_str7 draw_roads ctx0 = Some (JStr ''7'')"
  "group_value_of feature_num7 draw_roads ctx0 = Some (JNum (Decimal False 7 1))"
  by (simp_all add: group_value_of_def draw_roads_def feature_str0_def feature_num0_def
        feature_str7_def feature_num7_def)

lemma sample_group_keys:
  "group_key_of draw_roads (Some (JStr ''0'')) = ''roads:0''"
  "group_key_of draw_roads (Some (JNum (Decimal False 0 0))) = ''roads:0''"
  "group_key_of draw_roads (Some (JStr ''7'')) = ''roads:7''"
  "group_key_of draw_roads (Some (JNum (Decimal False 7 1))) = ''roads:7''"
  by (simp_all add: group_key_of_def draw_roads_def js_any_ToString_def digits_text_def
        decimal.simps)

lemma group_bytes_1: "group_bytes 1 = [1, 0, 0, 255]"
  using js_shr_byte [of 8 1] js_shr_byte [of 16 1]
  by (simp add: group_bytes_def js_and_255)

text \<open>
  C8, as the code has it. \<^verbatim>\<open>getSelector\<close> tests the group value for truthiness before
  it looks the composite key up. So, with no \<^verbatim>\<open>reset\<close> between them, two calls whose
  group values are both truthy and give the same composite key are assigned the same
  group index colour, whatever other calls come in between; a truthy value whose key is
  new gets the bytes of the incremented group counter, one whose key is known gets the
  stored colour and leaves the counter alone; and a value that is not truthy (no value,
  \<^verbatim>\<open>null\<close>, but also \<^verbatim>\<open>false\<close>, \<open>0\<close> and the empty string) is assigned the sentinel
  \<open>[255, 255, 255, 255]\<close>.
\<close>

theorem getSelector_group_assignment:
  assumes "Reset \<notin> set cs"
  shows "(js_truthy (group_value_of f d c) \<longrightarrow> js_truthy (group_value_of f' d' c') \<longrightarrow>
            group_key_of d' (group_value_of f' d' c') = group_key_of d (group_value_of f d c) \<longrightarrow>
            map_option grp_index
              (assigned_group (getSelector (snd (run_calls (snd (getSelector s f d t c)) cs)) f' d' t' c'))
            = map_option grp_index (assigned_group (getSelector s f d t c)))
       \<and> (js_truthy (group_value_of f d c) \<longrightarrow>
            map_option grp_index (assigned_group (getSelector s f d t c)) =
              Some (case groups s (group_key_of d (group_value_of f d c)) of
                      Some g \<Rightarrow> g
                    | None \<Rightarrow> group_bytes (group_index s + 1))
            \<and> group_index (snd (getSelector s f d t c)) =
                (case groups s (group_key_of d (group_value_of f d c)) of
                   Some g \<Rightarrow> group_index s
                 | None \<Rightarrow> group_index s + 1))
       \<and> (\<not> js_truthy (group_value_of f d c) \<longrightarrow>
            map_option grp_index (assigned_group (getSelector s f d t c)) = Some [255, 255, 255, 255])"
proof (intro conjI impI)
  assume v: "js_truthy (group_value_of f d c)" and v': "js_truthy (group_value_of f' d' c')"
    and k: "group_key_of d' (group_value_of f' d' c') = group_key_of d (group_value_of f d c)"
  let ?s1 = "snd (getSelector s f d t c)"
  let ?gk = "group_key_of d (group_value_of f d c)"
  obtain g where g: "map_option grp_index (assigned_group (getSelector s f d t c)) = Some g"
    by (simp add: getSelector_assigned)
  then have "groups ?s1 ?gk = Some g" using getSelector_registers [OF v, of s t] by simp
  then have "groups (snd (run_calls ?s1 cs)) ?gk = Some g"
    using assms by (intro run_calls_groups_kept)
  then show "map_option grp_index
              (assigned_group (getSelector (snd (run_calls ?s1 cs)) f' d' t' c'))
            = map_option grp_index (assigned_group (getSelector s f d t c))"
    using v' k g by (simp add: getSelector_assigned)
next
  assume "js_truthy (group_value_of f d c)"
  then show "map_option grp_index (assigned_group (getSelector s f d t c)) =
              Some (case groups s (group_key_of d (group_value_of f d c)) of
                      Some g \<Rightarrow> g
                    | None \<Rightarrow> group_bytes (group_index s + 1))"
    by (simp add: getSelector_assigned)
next
  assume "js_truthy (group_value_of f d c)"
  then show "group_index (snd (getSelector s f d t c)) =
                (case groups s (group_key_of d (group_value_of f d c)) of
                   Some g \<Rightarrow> group_index s
                 | None \<Rightarrow> group_index s + 1)"
    by (simp add: getSelector_group_index split: option.splits)
next
  assume "\<not> js_truthy (group_value_of f d c)"
  then show "map_option grp_index (assigned_group (getSelector s f d t c)) = Some [255, 255, 255, 255]"
    by (simp add: getSelector_assigned)
qed

theorem getSelector_group_assignment_witness:
  "Reset \<notin> set [CreateSelector tile0, GetSelector feature_str0 draw_roads tile0 ctx0]
   \<and> js_truthy (group_value_of feature_str7 draw_roads ctx0)
   \<and> js_truthy (group_value_of feature_num7 draw_roads ctx0)
   \<and> group_key_of draw_roads (group_value_of feature_num7 draw_roads ctx0)
       = group_key_of draw_roads (group_value_of feature_str7 draw_roads ctx0)
   \<and> map_option grp_index
        (assigned_group
           (getSelector
              (snd (run_calls (snd (getSelector static_init feature_str7 draw_roads tile0 ctx0))
                 [CreateSelector tile0, GetSelector feature_str0 draw_roads tile0 ctx0]))
              feature_num7 draw_roads tile0 ctx0))
       = map_option grp_index
           (assigned_group (getSelector static_init feature_str7 draw_roads tile0 ctx0))
   \<and> map_option grp_index
        (assigned_group (getSelector static_init feature_str7 draw_roads tile0 ctx0))
       = Some [1, 0, 0, 255]
   \<and> \<not> js_truthy (group_value_of feature_num0 draw_roads ctx0)
   \<and> map_option grp_index
        (assigned_group (getSelector static_init feature_num0 draw_roads tile0 ctx0))
       = Some [255, 255, 255, 255]"
proof -
  let ?cs = "[CreateSelector tile0, GetSelector feature_str0 draw_roads tile0 ctx0]"
  have h: "Reset \<notin> set ?cs" by simp
  have t7: "js_truthy (group_value_of feature_str7 draw_roads ctx0)"
    and n7: "js_truthy (group_value_of feature_num7 draw_roads ctx0)"
    and n0: "\<not> js_truthy (group_value_of feature_num0 draw_roads ctx0)"
    by (simp_all add: sample_group_values)
  have k: "group_key_of draw_roads (group_value_of feature_num7 draw_roads ctx0)
       = group_key_of draw_roads (group_value_of feature_str7 draw_roads ctx0)"
    by (simp add: sample_group_values sample_group_keys)
  note a = getSelector_group_assignment [OF h, where s = static_init and f = feature_str7
      and d = draw_roads and c = ctx0 and t = tile0 and f' = feature_num7 and d' = draw_roads
      and c' = ctx0 and t' = tile0]
  note b = getSelector_group_assignment [OF h, where s = static_init and f = feature_num0
      and d = draw_roads and c = ctx0 and t = tile0 and f' = feature_num7 and d' = draw_roads
      and c' = ctx0 and t' = tile0]
  have 1: "map_option grp_index
        (assigned_group
           (getSelector
              (snd (run_calls (snd (getSelector static_init feature_str7 draw_roads tile0 ctx0)) ?cs))
              feature_num7 draw_roads tile0 ctx0))
       = map_option grp_index
           (assigned_group (getSelector static_init feature_str7 draw_roads tile0 ctx0))"
    by (rule a [THEN conjunct1, THEN mp, THEN mp, THEN mp, OF t7 n7 k])
  have "map_option grp_index
        (assigned_group (getSelector static_init feature_str7 draw_roads tile0 ctx0))
       = Some (case groups static_init (group_key_of draw_roads (group_value_of feature_str7 draw_roads ctx0)) of
                 Some g \<Rightarrow> g
               | None \<Rightarrow> group_bytes (group_index static_init + 1))"
    by (rule a [THEN conjunct2, THEN conjunct1, THEN mp, OF t7, THEN conjunct1])
  then have 2: "map_option grp_index
        (assigned_group (getSelector static_init feature_str7 draw_roads tile0 ctx0))
       = Some [1, 0, 0, 255]"
    by (simp add: static_init_def group_bytes_1)
  have 3: "map_option grp_index
        (assigned_group (getSelector static_init feature_num0 draw_roads tile0 ctx0))
       = Some [255, 255, 255, 255]"
    by (rule b [THEN conjunct2, THEN conjunct2, THEN mp, OF n0])
  show ?thesis
    by (intro conjI h t7 n7 n0 k 1 2 3)
qed

text \<open>
  C8 as stated fails where a truthy and a falsy value give the same composite key: the
  string \<^verbatim>\<open>"0"\<close> and the number \<open>0\<close> both give \<^verbatim>\<open>roads:0\<close>; the first is assigned
  the next index colour, the second the sentinel.
\<close>

theorem getSelector_string_and_number_counterexample:
  "group_key_of draw_roads (group_value_of feature_num0 draw_roads ctx0)
     = group_key_of draw_roads (group_value_of feature_str0 draw_roads ctx0)
   \<and> map_option grp_index
        (assigned_group (getSelector static_init feature_str0 draw_roads tile0 ctx0))
       = Some [1, 0, 0, 255]
   \<and> map_option grp_index
        (assigned_group
           (getSelector (snd (getSelector static_init feature_str0 draw_roads tile0 ctx0))
              feature_num0 draw_roads tile0 ctx0))
       = Some [255, 255, 255, 255]
   \<and> map_option grp_index
        (assigned_group
           (getSelector (snd (getSelector static_init feature_str0 draw_roads tile0 ctx0))
              feature_num0 draw_roads tile0 ctx0))
       \<noteq> map_option grp_index
           (assigned_group (getSelector static_init feature_str0 draw_roads tile0 ctx0))"
  by (simp add: getSelector_assigned sample_group_values sample_group_keys group_bytes_1
        static_init_def)


section \<open>The deferred read\<close>

text \<open>
  The timers of the instance: \<open>timer_effect\<close> is what \<^verbatim>\<open>clearTimeout\<close> and
  \<^verbatim>\<open>setTimeout\<close> do to the list of pending timers; \<open>read_calls\<close> is a run of calls of
  \<^verbatim>\<open>read()\<close> during which no timer fires, each with the handle \<^verbatim>\<open>setTimeout\<close> gave it;
  \<open>fire\<close> lets the pending timers fire, each calling \<open>read_timeout\<close>. \<open>binds\<close> counts
  the passes over the frame buffer: the times the selection buffer is bound for reading.
\<close>

fun timer_effect :: "effect \<Rightarrow> nat list \<Rightarrow> nat list" where
  "timer_effect (ClearTimeout t) pending = removeAll t pending"
| "timer_effect (SetTimeout h d) pending = pending @ [h]"
| "timer_effect e pending = pending"

fun read_calls :: "FeatureSelection \<Rightarrow> nat list \<Rightarrow> nat list \<Rightarrow> FeatureSelection \<times> nat list" where
  "read_calls s pending [] = (s, pending)"
| "read_calls s pending (h # hs) =
     (let (s', es) = read s h in read_calls s' (fold timer_effect es pending) hs)"

fun fire :: "(int \<Rightarrow> int \<Rightarrow> pixel) \<Rightarrow> bool \<Rightarrow> FeatureSelection \<Rightarrow> nat list \<Rightarrow> outcome list" where
  "fire gl lock s [] = []"
| "fire gl lock s (h # hs) =
     read_timeout gl lock s # fire gl lock (out_state (read_timeout gl lock s)) hs"

definition binds :: "effect list \<Rightarrow> nat" where
  "binds es = length (filter (\<lambda>e. e = GL_bindFramebuffer True) es)"

definition no_bind :: "effect \<Rightarrow> bool" where
  "no_bind e \<longleftrightarrow> (\<forall>b. e \<noteq> GL_bindFramebuffer b)"

lemma read_once:
  assumes "set pending \<subseteq> set_option (read_delay_timer s)"
  shows "fold timer_effect (snd (read s h)) pending = [h]"
    and "read_delay_timer (fst (read s h)) = Some h"
    and "lock_fn_given (fst (read s h)) = lock_fn_given s"
proof -
  show "fold timer_effect (snd (read s h)) pending = [h]"
  proof (cases "read_delay_timer s")
    case None
    then have "pending = []" using assms by simp
    then show ?thesis using None by (simp add: read_def)
  next
    case (Some t)
    then have "removeAll t pending = []" using assms by (auto simp add: removeAll_filter_not_eq filter_empty_conv)
    then show ?thesis using Some by (simp add: read_def)
  qed
qed (simp_all add: read_def)

lemma read_calls_last:
  assumes "set pending \<subseteq> set_option (read_delay_timer s)" "hs \<noteq> []"
  shows "snd (read_calls s pending hs) = [last hs]
       \<and> read_delay_timer (fst (read_calls s pending hs)) = Some (last hs)
       \<and> lock_fn_given (fst (read_calls s pending hs)) = lock_fn_given s"
  using assms
proof (induction hs arbitrary: s pending)
  case Nil
  then show ?case by simp
next
  case (Cons h hs)
  note once = read_once [OF Cons.prems(1), of h]
  show ?case
  proof (cases "hs = []")
    case True
    then show ?thesis using once by (simp add: split_beta)
  next
    case False
    have "set (fold timer_effect (snd (read s h)) pending)
            \<subseteq> set_option (read_delay_timer (fst (read s h)))"
      using once by simp
    from Cons.IH [OF this False] show ?thesis
      using False once(3) by (simp add: split_beta)
  qed
qed

lemma finishRead_no_bind: "list_all no_bind (out_effects (finishRead s m))"
  by (simp add: finishRead_def no_bind_def Let_def split: option.splits)

lemma read_request_no_bind: "list_all no_bind (out_effects (read_request gl s r q))"
proof -
  let ?s1 = "s\<lparr>pixel := gl (sample_x s q) (sample_y s q)\<rparr>"
  let ?m = "\<lparr>msg_id = req_id q, msg_feature = None, msg_group = None\<rparr>"
  have "list_all no_bind (out_effects (finishRead ?s1 ?m))" by (rule finishRead_no_bind)
  then show ?thesis
    by (cases "finishRead ?s1 ?m")
       (auto simp add: read_request_def Let_def no_bind_def split: option.splits)
qed

lemma read_loop_no_bind: "list_all no_bind (out_effects (read_loop gl s ks))"
proof (induction ks arbitrary: s)
  case Nil
  then show ?case by simp
next
  case (Cons k ks)
  show ?case
  proof (cases "skipped s k")
    case True
    then show ?thesis using Cons.IH by (simp add: read_loop_skip)
  next
    case False
    then obtain q where q: "map_of (requests s) k = Some q" and unsent: "\<not> sent q"
      by (auto simp add: skipped_def split: option.splits)
    show ?thesis
      using q unsent read_request_no_bind [of gl s k q] Cons.IH
      by (cases "read_request gl s k q") (simp_all add: read_loop.simps(2))
  qed
qed

lemma binds_no_bind: "list_all no_bind es \<Longrightarrow> binds es = 0"
  by (auto simp add: binds_def no_bind_def list_all_iff filter_empty_conv)

lemma binds_append: "binds (es @ es') = binds es + binds es'"
  by (simp add: binds_def)

lemma read_timeout_binds:
  "binds (out_effects (read_timeout gl lock s)) = (if locked s lock then 0 else 1)"
proof (cases "locked s lock")
  case True
  then show ?thesis by (simp add: read_timeout_def binds_def)
next
  case False
  have "binds (out_effects (read_loop gl s (map fst (requests s)))) = 0"
    by (intro binds_no_bind read_loop_no_bind)
  then show ?thesis
    using False
    by (cases "read_loop gl s (map fst (requests s))")
       (simp_all add: read_timeout_def binds_def)
qed

lemma read_calls_fire:
  assumes "set pending \<subseteq> set_option (read_delay_timer s)" and "hs \<noteq> []"
  shows "snd (read_calls s pending hs) = [last hs]
       \<and> fire gl lock (fst (read_calls s pending hs)) (snd (read_calls s pending hs))
           = [read_timeout gl lock (fst (read_calls s pending hs))]
       \<and> binds (concat (map out_effects
            (fire gl lock (fst (read_calls s pending hs)) (snd (read_calls s pending hs)))))
           = (if locked s lock then 0 else 1)"
proof -
  note l = read_calls_last [OF assms]
  have "locked (fst (read_calls s pending hs)) lock = locked s lock"
    using l by (simp add: locked_def)
  then show ?thesis
    using l by (simp add: read_timeout_binds)
qed

definition fs_locked :: FeatureSelection where
  "fs_locked = (init [Some (Worker 0), Some (Worker 1)] True)
     \<lparr>requests := [(1, request1)], selection_request_id := Some 1\<rparr>"

text \<open>
  C7, as the code has it. Every call of \<^verbatim>\<open>read()\<close> cancels the timer the instance
  holds and sets a new one. So when the pending timers of the instance are at most the one
  it holds, one or more calls of \<^verbatim>\<open>read()\<close> with no timer firing in between leave
  exactly one timer pending, the last one set; when it fires, \<open>read_timeout\<close> runs once,
  and it makes one pass over the buffer, or none when the lock function says that the
  buffer is locked.
\<close>

theorem read_debounced:
  assumes "set pending \<subseteq> set_option (read_delay_timer s)" and "hs \<noteq> []"
  shows "snd (read_calls s pending hs) = [last hs]
       \<and> fire gl lock (fst (read_calls s pending hs)) (snd (read_calls s pending hs))
           = [read_timeout gl lock (fst (read_calls s pending hs))]
       \<and> binds (concat (map out_effects
            (fire gl lock (fst (read_calls s pending hs)) (snd (read_calls s pending hs)))))
           = (if locked s lock then 0 else 1)"
  using assms by (rule read_calls_fire)

theorem read_debounced_witness:
  "set [] \<subseteq> set_option (read_delay_timer fs_two) \<and> [4, 5 :: nat] \<noteq> []
   \<and> snd (read_calls fs_two [] [4, 5]) = [5]
   \<and> fire gl_empty True (fst (read_calls fs_two [] [4, 5])) (snd (read_calls fs_two [] [4, 5]))
       = [read_timeout gl_empty True (fst (read_calls fs_two [] [4, 5]))]
   \<and> binds (concat (map out_effects
        (fire gl_empty True (fst (read_calls fs_two [] [4, 5]))
           (snd (read_calls fs_two [] [4, 5]))))) = 1"
proof -
  have h1: "set [] \<subseteq> set_option (read_delay_timer fs_two)" by simp
  have h2: "[4, 5 :: nat] \<noteq> []" by simp
  have u: "\<not> locked fs_two True" by (simp add: locked_def fs_two_def init_def)
  note c = read_debounced [where gl = gl_empty and lock = True, OF h1 h2]
  have c1: "snd (read_calls fs_two [] [4, 5]) = [5]" using c by simp
  have c2: "fire gl_empty True (fst (read_calls fs_two [] [4, 5])) (snd (read_calls fs_two [] [4, 5]))
       = [read_timeout gl_empty True (fst (read_calls fs_two [] [4, 5]))]"
    using c by (rule conjunct2 [THEN conjunct1])
  have c3: "binds (concat (map out_effects
        (fire gl_empty True (fst (read_calls fs_two [] [4, 5]))
           (snd (read_calls fs_two [] [4, 5]))))) = 1"
    using c [THEN conjunct2, THEN conjunct2] u by (simp only: if_False)
  show ?thesis by (intro conjI h1 h2 c1 c2 c3)
qed

text \<open>
  C7 as stated fails when the lock function reports the buffer locked as the timer fires:
  two calls of \<^verbatim>\<open>read()\<close> still leave one timer, but its function returns before it
  touches the buffer, so there is no pass.
\<close>

theorem read_debounced_locked_counterexample:
  "locked fs_locked True
   \<and> snd (read_calls fs_locked [] [4, 5]) = [5]
   \<and> binds (concat (map out_effects
        (fire gl_empty True (fst (read_calls fs_locked [] [4, 5]))
           (snd (read_calls fs_locked [] [4, 5]))))) = 0"
proof -
  have h1: "set [] \<subseteq> set_option (read_delay_timer fs_locked)" by simp
  have h2: "[4, 5 :: nat] \<noteq> []" by simp
  have l: "locked fs_locked True" by (simp add: locked_def fs_locked_def init_def)
  note c = read_calls_fire [where gl = gl_empty and lock = True, OF h1 h2]
  have c1: "snd (read_calls fs_locked [] [4, 5]) = [5]" using c by simp
  have c3: "binds (concat (map out_effects
        (fire gl_empty True (fst (read_calls fs_locked [] [4, 5]))
           (snd (read_calls fs_locked [] [4, 5]))))) = 0"
    using c [THEN conjunct2, THEN conjunct2] l by (simp only: if_True)
  show ?thesis by (intro conjI l c1 c3)
qed


section \<open>The state cache\<close>

text \<open>
  The group colour queries of \<^verbatim>\<open>updateState\<close> that await their reply: \<open>awaited\<close> reads
  them off the effects of a call, as pairs of the state key and the identity of the cached
  object the reply will write to. The events of the cache: a call of \<^verbatim>\<open>updateState\<close>,
  the reply to the \<open>i\<close>-th awaited query, a selection stored under a key (the function
  chained to the promise of \<^verbatim>\<open>getFeatureAt\<close>), a call of \<^verbatim>\<open>clearState\<close>.
  \<open>stores_under k\<close> says that an event puts a new object under the key \<open>k\<close> (the empty
  key is not truthy: nothing is stored under it); \<open>no_store_while_awaited k\<close> says of a
  run that no object is put under \<open>k\<close> at a moment when a query for \<open>k\<close> awaits its reply.
  \<open>update_is_noop\<close> is the test \<^verbatim>\<open>updateState\<close> starts with.
\<close>

fun awaited :: "effect \<Rightarrow> (string \<times> nat) list" where
  "awaited (PostMessage t n qy (Then_update k ref)) = [(k, ref)]"
| "awaited e = []"

datatype cache_event =
    Update string
  | Update_reply nat colors
  | Stored string selection
  | Cleared string

fun cache_step ::
  "FeatureSelection \<times> (string \<times> nat) list \<Rightarrow> cache_event
     \<Rightarrow> FeatureSelection \<times> (string \<times> nat) list" where
  "cache_step (s, aw) (Update k) =
     (fst (snd (updateState s k)), aw @ concat (map awaited (snd (snd (updateState s k)))))"
| "cache_step (s, aw) (Update_reply i cols) =
     (if i < length aw
      then (fst (updateState_then s (fst (aw ! i)) (snd (aw ! i)) cols), take i aw @ drop (Suc i) aw)
      else (s, aw))"
| "cache_step (s, aw) (Stored k sel) = (getFeatureAt_then s (Some k) sel, aw)"
| "cache_step (s, aw) (Cleared k) = (clearState s k, aw)"

definition cache_run ::
  "FeatureSelection \<times> (string \<times> nat) list \<Rightarrow> cache_event list
     \<Rightarrow> FeatureSelection \<times> (string \<times> nat) list" where
  "cache_run = foldl cache_step"

fun stores_under :: "string \<Rightarrow> cache_event \<Rightarrow> bool" where
  "stores_under k (Stored k' sel) = (k' = k \<and> k' \<noteq> [])"
| "stores_under k e = False"

fun no_store_while_awaited ::
  "string \<Rightarrow> FeatureSelection \<times> (string \<times> nat) list \<Rightarrow> cache_event list \<Rightarrow> bool" where
  "no_store_while_awaited k x [] = True"
| "no_store_while_awaited k x (e # es) =
     ((stores_under k e \<longrightarrow> k \<notin> fst ` set (snd x))
      \<and> no_store_while_awaited k (cache_step x e) es)"

text \<open>
  The state of the cache and of the awaited queries, for a key \<open>k\<close>: at most one query
  for \<open>k\<close> is awaited, and none when the object cached under \<open>k\<close> has no update pending;
  the object an awaited query will write to is older than \<open>next_ref\<close> and is cached, if
  at all, under the key of the query; the cached objects are older than \<open>next_ref\<close>, and
  none is cached under two keys. A new instance is in such a state, for every key
  (\<open>cache_ok_init\<close> below), and every event keeps it (\<open>cache_ok_step\<close>).
\<close>

definition cache_ok :: "string \<Rightarrow> FeatureSelection \<Rightarrow> (string \<times> nat) list \<Rightarrow> bool" where
  "cache_ok k s aw \<longleftrightarrow>
     length (filter (\<lambda>a. fst a = k) aw) \<le> 1
     \<and> (\<forall>ref st. states s k = Some (Some (ref, st)) \<longrightarrow> \<not> update_pending st
           \<longrightarrow> k \<notin> fst ` set aw)
     \<and> (\<forall>(k', r) \<in> set aw. r < next_ref s
           \<and> (\<forall>k'' st. states s k'' = Some (Some (r, st)) \<longrightarrow> k'' = k'))
     \<and> (\<forall>k' r st. states s k' = Some (Some (r, st)) \<longrightarrow> r < next_ref s)
     \<and> (\<forall>k1 k2 r st1 st2. states s k1 = Some (Some (r, st1)) \<longrightarrow>
            states s k2 = Some (Some (r, st2)) \<longrightarrow> k1 = k2)"

definition update_is_noop :: "FeatureSelection \<Rightarrow> string \<Rightarrow> bool" where
  "update_is_noop s k \<longleftrightarrow>
     (case states s k of
        None \<Rightarrow> True
      | Some None \<Rightarrow> True
      | Some (Some (ref, st)) \<Rightarrow>
          s_group st = None \<or> update_pending st
          \<or> length (filter (\<lambda>c. c \<noteq> None) (selection_colors st)) = length (workers s))"

definition group_roads :: group_assignment where
  "group_roads = \<lparr>grp_index = [1, 0, 0, 255], grp_key = ''roads:7'',
                  grp_value = Some (JNum (Decimal False 7 1))\<rparr>"

definition selection_a :: selection where
  "selection_a = \<lparr>s_feature = Some (JStr ''a''), s_changed = True, s_request = request0,
                   selection_colors = [Some [1, 0, 0, 255], None], s_group = Some group_roads,
                   update_pending = False\<rparr>"

definition selection_b :: selection where
  "selection_b = \<lparr>s_feature = Some (JStr ''b''), s_changed = True, s_request = request1,
                   selection_colors = [None, None], s_group = Some group_roads,
                   update_pending = False\<rparr>"

definition fs_hover :: FeatureSelection where
  "fs_hover = getFeatureAt_then fs_two (Some ''hover'') selection_a"

lemma updateState_noop:
  "update_is_noop s k \<Longrightarrow> updateState s k = (Resolved_undefined, s, [])"
  by (auto simp add: update_is_noop_def updateState_def split: option.splits prod.splits)

lemma updateState_posts:
  assumes "\<not> update_is_noop s k"
  obtains ref st g where "states s k = Some (Some (ref, st))" "s_group st = Some g"
    "\<not> update_pending st"
    "updateState s k =
       (Awaiting,
        s\<lparr>states := (\<lambda>k'. case states s k' of
               Some (Some (ref', st')) \<Rightarrow>
                 if ref' = ref then Some (Some (ref', st'\<lparr>update_pending := True\<rparr>))
                 else Some (Some (ref', st'))
             | v \<Rightarrow> v)\<rparr>,
        [PostMessage (ToWorkers (workers s)) ''self.getFeatureSelectionGroupColor''
           (GroupQuery (grp_key g)) (Then_update k ref)])"
  using assms
  by (auto simp add: update_is_noop_def updateState_def split: option.splits prod.splits)

text \<open>What \<open>cache_ok\<close> says, as rules.\<close>

lemma cache_okI:
  assumes "length (filter (\<lambda>a. fst a = k) aw) \<le> 1"
    and "\<And>ref st. states s k = Some (Some (ref, st)) \<Longrightarrow> \<not> update_pending st
           \<Longrightarrow> k \<notin> fst ` set aw"
    and "\<And>k' r. (k', r) \<in> set aw \<Longrightarrow> r < next_ref s"
    and "\<And>k' r k'' st. (k', r) \<in> set aw \<Longrightarrow> states s k'' = Some (Some (r, st)) \<Longrightarrow> k'' = k'"
    and "\<And>k' r st. states s k' = Some (Some (r, st)) \<Longrightarrow> r < next_ref s"
    and "\<And>k1 k2 r st1 st2. states s k1 = Some (Some (r, st1)) \<Longrightarrow>
            states s k2 = Some (Some (r, st2)) \<Longrightarrow> k1 = k2"
  shows "cache_ok k s aw"
  unfolding cache_ok_def
proof (intro conjI)
  show "length (filter (\<lambda>a. fst a = k) aw) \<le> 1" by (rule assms(1))
  show "\<forall>ref st. states s k = Some (Some (ref, st)) \<longrightarrow> \<not> update_pending st
          \<longrightarrow> k \<notin> fst ` set aw"
    using assms(2) by blast
  show "\<forall>(k', r) \<in> set aw. r < next_ref s
          \<and> (\<forall>k'' st. states s k'' = Some (Some (r, st)) \<longrightarrow> k'' = k')"
    using assms(3,4) by blast
  show "\<forall>k' r st. states s k' = Some (Some (r, st)) \<longrightarrow> r < next_ref s"
    using assms(5) by blast
  show "\<forall>k1 k2 r st1 st2. states s k1 = Some (Some (r, st1)) \<longrightarrow>
            states s k2 = Some (Some (r, st2)) \<longrightarrow> k1 = k2"
    using assms(6) by blast
qed

lemma cache_okD:
  assumes "cache_ok k s aw"
  shows "length (filter (\<lambda>a. fst a = k) aw) \<le> 1"
    and "\<And>ref st. states s k = Some (Some (ref, st)) \<Longrightarrow> \<not> update_pending st
           \<Longrightarrow> k \<notin> fst ` set aw"
    and "\<And>k' r. (k', r) \<in> set aw \<Longrightarrow> r < next_ref s"
    and "\<And>k' r k'' st. (k', r) \<in> set aw \<Longrightarrow> states s k'' = Some (Some (r, st)) \<Longrightarrow> k'' = k'"
    and "\<And>k' r st. states s k' = Some (Some (r, st)) \<Longrightarrow> r < next_ref s"
    and "\<And>k1 k2 r st1 st2. states s k1 = Some (Some (r, st1)) \<Longrightarrow>
            states s k2 = Some (Some (r, st2)) \<Longrightarrow> k1 = k2"
proof -
  show "length (filter (\<lambda>a. fst a = k) aw) \<le> 1"
    using assms by (simp add: cache_ok_def)
  show "k \<notin> fst ` set aw" if "states s k = Some (Some (ref, st))" "\<not> update_pending st"
    for ref st
    using assms that unfolding cache_ok_def by blast
  have 3: "\<forall>(k', r) \<in> set aw. r < next_ref s
          \<and> (\<forall>k'' st. states s k'' = Some (Some (r, st)) \<longrightarrow> k'' = k')"
    using assms unfolding cache_ok_def by blast
  show "r < next_ref s" if "(k', r) \<in> set aw" for k' r
    using 3 that by blast
  show "k'' = k'" if "(k', r) \<in> set aw" "states s k'' = Some (Some (r, st))" for k' r k'' st
    using 3 that by blast
  show "r < next_ref s" if "states s k' = Some (Some (r, st))" for k' r st
    using assms that unfolding cache_ok_def by blast
  show "k1 = k2" if "states s k1 = Some (Some (r, st1))" "states s k2 = Some (Some (r, st2))"
    for k1 k2 r st1 st2
    using assms that unfolding cache_ok_def by blast
qed

lemma filter_key_append:
  "length (filter (\<lambda>a. fst a = k) (aw @ [(k', r)])) =
     length (filter (\<lambda>a. fst a = k) aw) + (if k' = k then 1 else 0)"
  by simp

lemma no_key_filter: "k \<notin> fst ` set aw \<Longrightarrow> filter (\<lambda>a. fst a = k) aw = []"
  by (induction aw) auto

lemma filter_key_none: "filter (\<lambda>a. fst a = k) aw = [] \<Longrightarrow> k \<notin> fst ` set aw"
  by (induction aw) (auto split: if_splits)

lemma remove_nth_filter:
  assumes "i < length xs"
  shows "length (filter P (take i xs @ drop (Suc i) xs)) \<le> length (filter P xs)"
    and "P (xs ! i) \<Longrightarrow> length (filter P xs) \<le> 1 \<Longrightarrow> filter P (take i xs @ drop (Suc i) xs) = []"
proof -
  have xs: "xs = take i xs @ xs ! i # drop (Suc i) xs"
    using assms by (rule id_take_nth_drop)
  have l: "length (filter P xs) =
      length (filter P (take i xs)) + (if P (xs ! i) then 1 else 0)
      + length (filter P (drop (Suc i) xs))"
    by (subst xs) simp
  show "length (filter P (take i xs @ drop (Suc i) xs)) \<le> length (filter P xs)"
    using l by simp
  show "filter P (take i xs @ drop (Suc i) xs) = []" if "P (xs ! i)" "length (filter P xs) \<le> 1"
    using l that by simp
qed

lemma remove_nth_subset: "set (take i xs @ drop (Suc i) xs) \<subseteq> set xs"
  using set_take_subset [of i xs] set_drop_subset [of "Suc i" xs] by auto

lemma cache_ok_update:
  assumes "cache_ok k s aw"
  shows "cache_ok k (fst (cache_step (s, aw) (Update k'))) (snd (cache_step (s, aw) (Update k')))"
proof (cases "update_is_noop s k'")
  case True
  then show ?thesis using assms by (simp add: updateState_noop)
next
  case False
  then obtain ref st g where st: "states s k' = Some (Some (ref, st))"
    and gr: "s_group st = Some g" and np: "\<not> update_pending st"
    and eq: "updateState s k' =
       (Awaiting,
        s\<lparr>states := (\<lambda>k'. case states s k' of
               Some (Some (ref', st')) \<Rightarrow>
                 if ref' = ref then Some (Some (ref', st'\<lparr>update_pending := True\<rparr>))
                 else Some (Some (ref', st'))
             | v \<Rightarrow> v)\<rparr>,
        [PostMessage (ToWorkers (workers s)) ''self.getFeatureSelectionGroupColor''
           (GroupQuery (grp_key g)) (Then_update k' ref)])"
    by (rule updateState_posts)
  let ?s' = "fst (cache_step (s, aw) (Update k'))"
  have aw': "snd (cache_step (s, aw) (Update k')) = aw @ [(k', ref)]"
    by (simp add: eq)
  have nr: "next_ref ?s' = next_ref s" by (simp add: eq)
  have old: "\<exists>st0. states s x = Some (Some (r, st0)) \<and> (r \<noteq> ref \<longrightarrow> st1 = st0)"
    if "states ?s' x = Some (Some (r, st1))" for x r st1
    using that by (auto simp add: eq split: option.splits if_splits)
  note D = cache_okD [OF assms]
  show ?thesis
    unfolding aw'
  proof (rule cache_okI)
    show "length (filter (\<lambda>a. fst a = k) (aw @ [(k', ref)])) \<le> 1"
    proof (cases "k' = k")
      case True
      then have "k \<notin> fst ` set aw" using D(2) st np by blast
      then show ?thesis by (simp add: no_key_filter)
    next
      case False
      then show ?thesis using D(1) by simp
    qed
  next
    fix r st1 assume 1: "states ?s' k = Some (Some (r, st1))" and 2: "\<not> update_pending st1"
    from old [OF 1] obtain st0 where st0: "states s k = Some (Some (r, st0))"
      and same: "r \<noteq> ref \<longrightarrow> st1 = st0" by blast
    have "r \<noteq> ref"
    proof
      assume "r = ref"
      then have "update_pending st1" using 1 st0 by (auto simp add: eq)
      then show False using 2 by simp
    qed
    then have "\<not> update_pending st0" using same 2 by simp
    then have "k \<notin> fst ` set aw" using D(2) st0 by blast
    moreover have "k \<noteq> k'" using st st0 \<open>r \<noteq> ref\<close> by auto
    ultimately show "k \<notin> fst ` set (aw @ [(k', ref)])" by simp
  next
    fix k1 r assume "(k1, r) \<in> set (aw @ [(k', ref)])"
    then consider "(k1, r) \<in> set aw" | "k1 = k'" "r = ref" by auto
    then show "r < next_ref ?s'"
      using D(3) D(5) st nr by cases auto
  next
    fix k1 r k2 st1
    assume m: "(k1, r) \<in> set (aw @ [(k', ref)])" and 1: "states ?s' k2 = Some (Some (r, st1))"
    from old [OF 1] obtain st0 where st0: "states s k2 = Some (Some (r, st0))" by blast
    from m consider "(k1, r) \<in> set aw" | "k1 = k'" "r = ref" by auto
    then show "k2 = k1"
    proof cases
      case 1
      then show ?thesis using D(4) st0 by blast
    next
      case 2
      then show ?thesis using D(6) [of k2 ref st0 k' st] st0 st by simp
    qed
  next
    fix x r st1 assume 1: "states ?s' x = Some (Some (r, st1))"
    from old [OF 1] show "r < next_ref ?s'" using D(5) nr by auto
  next
    fix k1 k2 r st1 st2
    assume 1: "states ?s' k1 = Some (Some (r, st1))" and 2: "states ?s' k2 = Some (Some (r, st2))"
    from old [OF 1] old [OF 2] show "k1 = k2" using D(6) by blast
  qed
qed

lemma cache_ok_reply:
  assumes "cache_ok k s aw"
  shows "cache_ok k (fst (cache_step (s, aw) (Update_reply i cols)))
           (snd (cache_step (s, aw) (Update_reply i cols)))"
proof (cases "i < length aw")
  case False
  then show ?thesis using assms by simp
next
  case True
  obtain k' ref where kr: "aw ! i = (k', ref)" by (cases "aw ! i")
  let ?aw' = "take i aw @ drop (Suc i) aw"
  let ?s' = "fst (updateState_then s k' ref cols)"
  have step: "cache_step (s, aw) (Update_reply i cols) = (?s', ?aw')"
    using True kr by simp
  have nr: "next_ref ?s' = next_ref s" by (simp add: updateState_then_def)
  have old: "\<exists>st0. states s x = Some (Some (r, st0)) \<and> (r \<noteq> ref \<longrightarrow> st1 = st0)"
    if "states ?s' x = Some (Some (r, st1))" for x r st1
    using that by (auto simp add: updateState_then_def split: option.splits if_splits)
  note D = cache_okD [OF assms]
  have here: "(k', ref) \<in> set aw" using True kr by (metis nth_mem)
  have sub: "set ?aw' \<subseteq> set aw" by (rule remove_nth_subset)
  show ?thesis
    unfolding step fst_conv snd_conv
  proof (rule cache_okI)
    show "length (filter (\<lambda>a. fst a = k) ?aw') \<le> 1"
      using remove_nth_filter(1) [OF True, of "\<lambda>a. fst a = k"] D(1) by simp
  next
    fix r st1 assume 1: "states ?s' k = Some (Some (r, st1))" and 2: "\<not> update_pending st1"
    from old [OF 1] obtain st0 where st0: "states s k = Some (Some (r, st0))"
      and same: "r \<noteq> ref \<longrightarrow> st1 = st0" by blast
    show "k \<notin> fst ` set ?aw'"
    proof (cases "r = ref")
      case False
      then have "\<not> update_pending st0" using same 2 by simp
      then have "k \<notin> fst ` set aw" using D(2) st0 by blast
      then show ?thesis using sub by blast
    next
      case True
      then have "k = k'" using D(4) [OF here] st0 by blast
      then have "fst (aw ! i) = k" using kr by simp
      then have "filter (\<lambda>a. fst a = k) ?aw' = []"
        using remove_nth_filter(2) [OF \<open>i < length aw\<close>, of "\<lambda>a. fst a = k"] D(1) by simp
      then show ?thesis by (rule filter_key_none)
    qed
  next
    fix k1 r assume "(k1, r) \<in> set ?aw'"
    then have "(k1, r) \<in> set aw" using sub by blast
    then show "r < next_ref ?s'" using D(3) nr by simp
  next
    fix k1 r k2 st1
    assume m: "(k1, r) \<in> set ?aw'" and 1: "states ?s' k2 = Some (Some (r, st1))"
    from m have "(k1, r) \<in> set aw" using sub by blast
    moreover from old [OF 1] obtain st0 where "states s k2 = Some (Some (r, st0))" by blast
    ultimately show "k2 = k1" using D(4) by blast
  next
    fix x r st1 assume 1: "states ?s' x = Some (Some (r, st1))"
    from old [OF 1] show "r < next_ref ?s'" using D(5) nr by auto
  next
    fix k1 k2 r st1 st2
    assume 1: "states ?s' k1 = Some (Some (r, st1))" and 2: "states ?s' k2 = Some (Some (r, st2))"
    from old [OF 1] old [OF 2] show "k1 = k2" using D(6) by blast
  qed
qed

lemma cache_ok_stored:
  assumes "cache_ok k s aw" and "stores_under k (Stored k' sel) \<longrightarrow> k \<notin> fst ` set aw"
  shows "cache_ok k (fst (cache_step (s, aw) (Stored k' sel)))
           (snd (cache_step (s, aw) (Stored k' sel)))"
proof (cases "k' = []")
  case True
  then show ?thesis using assms(1) by (simp add: getFeatureAt_then_def)
next
  case False
  let ?s' = "s\<lparr>states := (states s)(k' \<mapsto> Some (next_ref s, sel)), next_ref := next_ref s + 1\<rparr>"
  have step: "cache_step (s, aw) (Stored k' sel) = (?s', aw)"
    using False by (simp add: getFeatureAt_then_def)
  note D = cache_okD [OF assms(1)]
  have old: "(x = k' \<and> r = next_ref s) \<or> (x \<noteq> k' \<and> states s x = Some (Some (r, st1)))"
    if "states ?s' x = Some (Some (r, st1))" for x r st1
    using that by (auto split: if_splits)
  show ?thesis
    unfolding step fst_conv snd_conv
  proof (rule cache_okI)
    show "length (filter (\<lambda>a. fst a = k) aw) \<le> 1" by (rule D(1))
  next
    fix r st1 assume 1: "states ?s' k = Some (Some (r, st1))" and 2: "\<not> update_pending st1"
    show "k \<notin> fst ` set aw"
    proof (cases "k = k'")
      case True
      then show ?thesis using assms(2) False by simp
    next
      case False
      then have "states s k = Some (Some (r, st1))" using old [OF 1] by auto
      then show ?thesis using D(2) 2 by blast
    qed
  next
    fix k1 r assume "(k1, r) \<in> set aw"
    then have "r < next_ref s" by (rule D(3))
    then show "r < next_ref ?s'" by simp
  next
    fix k1 r k2 st1
    assume m: "(k1, r) \<in> set aw" and 1: "states ?s' k2 = Some (Some (r, st1))"
    have "r < next_ref s" using m by (rule D(3))
    then have "states s k2 = Some (Some (r, st1))" using old [OF 1] by auto
    then show "k2 = k1" using D(4) [OF m] by blast
  next
    fix x r st1 assume 1: "states ?s' x = Some (Some (r, st1))"
    from old [OF 1] have "r \<le> next_ref s" using D(5) [of x r st1] by auto
    then show "r < next_ref ?s'" by simp
  next
    fix k1 k2 r st1 st2
    assume 1: "states ?s' k1 = Some (Some (r, st1))" and 2: "states ?s' k2 = Some (Some (r, st2))"
    from old [OF 1] old [OF 2] show "k1 = k2"
      using D(5) [of k1 r st1] D(5) [of k2 r st2] D(6) [of k1 r st1 k2 st2] by auto
  qed
qed

lemma cache_ok_cleared:
  assumes "cache_ok k s aw"
  shows "cache_ok k (fst (cache_step (s, aw) (Cleared k'))) (snd (cache_step (s, aw) (Cleared k')))"
proof -
  let ?s' = "s\<lparr>states := (states s)(k' \<mapsto> None)\<rparr>"
  have step: "cache_step (s, aw) (Cleared k') = (?s', aw)"
    by (simp add: clearState_def)
  note D = cache_okD [OF assms]
  have old: "states s x = Some (Some (r, st1))"
    if "states ?s' x = Some (Some (r, st1))" for x r st1
    using that by (auto split: if_splits)
  show ?thesis
    unfolding step fst_conv snd_conv
  proof (rule cache_okI)
    show "length (filter (\<lambda>a. fst a = k) aw) \<le> 1" by (rule D(1))
  next
    fix r st1 assume 1: "states ?s' k = Some (Some (r, st1))" and 2: "\<not> update_pending st1"
    from old [OF 1] show "k \<notin> fst ` set aw" using D(2) 2 by blast
  next
    fix k1 r assume "(k1, r) \<in> set aw"
    then have "r < next_ref s" by (rule D(3))
    then show "r < next_ref ?s'" by simp
  next
    fix k1 r k2 st1
    assume m: "(k1, r) \<in> set aw" and 1: "states ?s' k2 = Some (Some (r, st1))"
    from old [OF 1] show "k2 = k1" using D(4) [OF m] by blast
  next
    fix x r st1 assume 1: "states ?s' x = Some (Some (r, st1))"
    from old [OF 1] have "r < next_ref s" by (rule D(5))
    then show "r < next_ref ?s'" by simp
  next
    fix k1 k2 r st1 st2
    assume 1: "states ?s' k1 = Some (Some (r, st1))" and 2: "states ?s' k2 = Some (Some (r, st2))"
    from old [OF 1] old [OF 2] show "k1 = k2" by (rule D(6))
  qed
qed

lemma cache_ok_step:
  assumes "cache_ok k (fst x) (snd x)" and "stores_under k e \<longrightarrow> k \<notin> fst ` set (snd x)"
  shows "cache_ok k (fst (cache_step x e)) (snd (cache_step x e))"
proof -
  obtain s aw where x: "x = (s, aw)" by (cases x)
  show ?thesis
  proof (cases e)
    case (Update k')
    then show ?thesis using assms(1) cache_ok_update [of k s aw k'] by (simp only: x fst_conv snd_conv)
  next
    case (Update_reply i cols)
    then show ?thesis
      using assms(1) cache_ok_reply [of k s aw i cols] by (simp only: x fst_conv snd_conv)
  next
    case (Stored k' sel)
    then show ?thesis
      using assms cache_ok_stored [of k s aw k' sel] by (simp only: x fst_conv snd_conv)
  next
    case (Cleared k')
    then show ?thesis
      using assms(1) cache_ok_cleared [of k s aw k'] by (simp only: x fst_conv snd_conv)
  qed
qed

lemma cache_ok_run:
  assumes "cache_ok k (fst x) (snd x)" and "no_store_while_awaited k x es"
  shows "cache_ok k (fst (cache_run x es)) (snd (cache_run x es))"
  using assms
proof (induction es arbitrary: x)
  case Nil
  then show ?case by (simp add: cache_run_def)
next
  case (Cons e es)
  have "cache_ok k (fst (cache_step x e)) (snd (cache_step x e))"
    using Cons.prems by (intro cache_ok_step) simp_all
  moreover have "no_store_while_awaited k (cache_step x e) es"
    using Cons.prems(2) by simp
  ultimately have "cache_ok k (fst (cache_run (cache_step x e) es)) (snd (cache_run (cache_step x e) es))"
    by (rule Cons.IH)
  then show ?case by (simp add: cache_run_def)
qed

lemma cache_run_outstanding:
  assumes "cache_ok k s aw" and "no_store_while_awaited k (s, aw) es"
  shows "length (filter (\<lambda>a. fst a = k) (snd (cache_run (s, aw) es))) \<le> 1"
proof -
  have "cache_ok k (fst (cache_run (s, aw) es)) (snd (cache_run (s, aw) es))"
    using assms by (intro cache_ok_run) simp_all
  then show ?thesis by (rule cache_okD(1))
qed

lemma cache_ok_init: "cache_ok k (init ws lk) []"
  by (rule cache_okI) (simp_all add: init_def)

lemma fs_hover_states:
  "states fs_hover = [''hover'' \<mapsto> Some (0, selection_a)]"
  "workers fs_hover = [Some (Worker 0), Some (Worker 1)]"
  "next_ref fs_hover = 1"
  by (simp_all add: fs_hover_def getFeatureAt_then_def fs_two_def init_def)

lemma fs_hover_update:
  "updateState fs_hover ''hover'' =
     (Awaiting,
      fs_hover\<lparr>states := [''hover'' \<mapsto> Some (0, selection_a\<lparr>update_pending := True\<rparr>)]\<rparr>,
      [PostMessage (ToWorkers [Some (Worker 0), Some (Worker 1)])
         ''self.getFeatureSelectionGroupColor'' (GroupQuery ''roads:7'') (Then_update ''hover'' 0)])"
  by (auto simp add: updateState_def fs_hover_states selection_a_def group_roads_def fun_eq_iff)

lemma fs_hover_replaced:
  "updateState
     (getFeatureAt_then (fst (snd (updateState fs_hover ''hover''))) (Some ''hover'') selection_b)
     ''hover'' =
     (Awaiting,
      fs_hover\<lparr>states := [''hover'' \<mapsto> Some (1, selection_b\<lparr>update_pending := True\<rparr>)],
        next_ref := 2\<rparr>,
      [PostMessage (ToWorkers [Some (Worker 0), Some (Worker 1)])
         ''self.getFeatureSelectionGroupColor'' (GroupQuery ''roads:7'') (Then_update ''hover'' 1)])"
proof -
  have s1: "fst (snd (updateState fs_hover ''hover'')) =
      fs_hover\<lparr>states := [''hover'' \<mapsto> Some (0, selection_a\<lparr>update_pending := True\<rparr>)]\<rparr>"
    by (simp add: fs_hover_update)
  have s2: "getFeatureAt_then
        (fs_hover\<lparr>states := [''hover'' \<mapsto> Some (0, selection_a\<lparr>update_pending := True\<rparr>)]\<rparr>)
        (Some ''hover'') selection_b =
      fs_hover\<lparr>states := [''hover'' \<mapsto> Some (1, selection_b)], next_ref := 2\<rparr>"
    by (simp add: getFeatureAt_then_def fs_hover_states)
  have s3: "updateState
        (fs_hover\<lparr>states := [''hover'' \<mapsto> Some (1, selection_b)], next_ref := 2\<rparr>) ''hover'' =
     (Awaiting,
      fs_hover\<lparr>states := [''hover'' \<mapsto> Some (1, selection_b\<lparr>update_pending := True\<rparr>)],
        next_ref := 2\<rparr>,
      [PostMessage (ToWorkers [Some (Worker 0), Some (Worker 1)])
         ''self.getFeatureSelectionGroupColor'' (GroupQuery ''roads:7'') (Then_update ''hover'' 1)])"
    by (auto simp add: updateState_def fs_hover_states selection_b_def group_roads_def fun_eq_iff)
  show ?thesis by (simp only: s1 s2 s3)
qed

text \<open>
  C6, as the code has it. \<^verbatim>\<open>update_pending\<close> is a flag of the cached selection object,
  not of the key. So for a state key \<open>k\<close>, through any sequence of calls of
  \<^verbatim>\<open>updateState\<close>, replies to its queries, calls of \<^verbatim>\<open>clearState\<close> and selections
  stored under any key, provided no selection is stored under \<open>k\<close> while a query for \<open>k\<close>
  awaits its reply, at most one query for \<open>k\<close> awaits its reply; and \<^verbatim>\<open>updateState\<close>
  returns a resolved promise, changes nothing and has no effect when the state is absent or
  \<^verbatim>\<open>null\<close>, has no group, has an update pending, or has as many colours as there are
  workers.
\<close>

theorem updateState_one_outstanding:
  assumes "cache_ok k s aw" and "no_store_while_awaited k (s, aw) es"
  shows "length (filter (\<lambda>a. fst a = k) (snd (cache_run (s, aw) es))) \<le> 1
       \<and> (update_is_noop s k \<longrightarrow> updateState s k = (Resolved_undefined, s, []))"
  using cache_run_outstanding [OF assms] updateState_noop by blast

theorem updateState_one_outstanding_witness:
  "cache_ok ''hover'' fs_hover []
   \<and> no_store_while_awaited ''hover'' (fs_hover, [])
        [Stored ''hover'' selection_b, Update ''hover'', Update ''hover'',
         Stored ''click'' selection_a, Cleared ''hover'', Update ''hover'',
         Update_reply 0 [Some [1, 0, 0, 255], None], Update ''hover'']
   \<and> length (filter (\<lambda>a. fst a = ''hover'')
        (snd (cache_run (fs_hover, [])
           [Stored ''hover'' selection_b, Update ''hover'', Update ''hover'',
            Stored ''click'' selection_a, Cleared ''hover'', Update ''hover'',
            Update_reply 0 [Some [1, 0, 0, 255], None], Update ''hover'']))) \<le> 1
   \<and> update_is_noop fs_two ''hover''
   \<and> updateState fs_two ''hover'' = (Resolved_undefined, fs_two, [])"
proof -
  let ?es = "[Stored ''hover'' selection_b, Update ''hover'', Update ''hover'',
              Stored ''click'' selection_a, Cleared ''hover'', Update ''hover'',
              Update_reply 0 [Some [1, 0, 0, 255], None], Update ''hover'']"
  have h1: "cache_ok ''hover'' fs_hover []"
    by (rule cache_okI) (auto simp add: fs_hover_states split: if_splits)
  have h2: "no_store_while_awaited ''hover'' (fs_hover, []) ?es" by simp
  have h3: "cache_ok ''hover'' fs_two []"
    by (rule cache_okI) (simp_all add: fs_two_def init_def)
  have h4: "no_store_while_awaited ''hover'' (fs_two, []) []" by simp
  have n: "update_is_noop fs_two ''hover''"
    by (simp add: update_is_noop_def fs_two_def init_def)
  note a = updateState_one_outstanding [OF h1 h2]
  note b = updateState_one_outstanding [OF h3 h4]
  show ?thesis
    by (intro conjI h1 h2 n a [THEN conjunct1] b [THEN conjunct2, THEN mp, OF n])
qed

text \<open>
  C6 as stated fails when a selection is stored under the key while a query for the key
  awaits its reply: the new object has no update pending, so the next \<^verbatim>\<open>updateState\<close>
  posts a second query for the same state key.
\<close>

theorem updateState_replaced_state_counterexample:
  "snd (cache_run (fs_hover, [])
          [Update ''hover'', Stored ''hover'' selection_b, Update ''hover''])
     = [(''hover'', 0), (''hover'', 1)]
   \<and> length (filter (\<lambda>a. fst a = ''hover'')
        (snd (cache_run (fs_hover, [])
          [Update ''hover'', Stored ''hover'' selection_b, Update ''hover'']))) = 2"
proof -
  have "snd (cache_run (fs_hover, [])
          [Update ''hover'', Stored ''hover'' selection_b, Update ''hover''])
     = [(''hover'', 0), (''hover'', 1)]"
    using fs_hover_replaced by (simp add: cache_run_def fs_hover_update)
  then show ?thesis by simp
qed


section \<open>The changed flag\<close>

text \<open>
  \<^verbatim>\<open>finishRead\<close> compares the serialisations of the new and the stored feature.
  \<^verbatim>\<open>JSON.stringify\<close> does not write everything: it leaves out a property whose value is
  \<^verbatim>\<open>undefined\<close>, writes \<^verbatim>\<open>null\<close> for an element that is \<^verbatim>\<open>undefined\<close> and for a
  number that is not finite, and \<^verbatim>\<open>0\<close> for the negative zero; and it writes the
  properties of an object in their order. On the values it writes in full (\<open>plain\<close>) it
  is injective, which is proved here: a serialised value followed by a delimiter can be
  read back in one way only. \<open>delim\<close> says that a rest is empty or starts with a comma or
  a closing bracket; \<open>changed_of\<close> reads the flag off an effect of \<^verbatim>\<open>finishRead\<close>: off
  the payload of \<^verbatim>\<open>resolve\<close>, or off the function chained to the group colour query,
  which will pass it on.
\<close>

definition digit_chars :: "char set" where
  "digit_chars = set ''0123456789''"

definition number_chars :: "char set" where
  "number_chars = digit_chars \<union> set ''.e+-''"

text \<open>
  The parts of the exponent notation of \<open>digits_text\<close>, and the notation a text is
  in: 0 for digits only, 1 for digits with a point, 2 for a text that starts with
  \<^verbatim>\<open>0.\<close>, 3 for a text with an exponent.
\<close>

definition mantissa :: "string \<Rightarrow> string" where
  "mantissa ds = (if int (length ds) = 1 then ds else hd ds # ''.'' @ tl ds)"

definition exponent :: "int \<Rightarrow> string" where
  "exponent n = (if n - 1 < 0 then ''-'' else ''+'') @ decimal (nat \<bar>n - 1\<bar>)"

definition text_form :: "string \<Rightarrow> nat" where
  "text_form t =
     (if CHR ''e'' \<in> set t then 3
      else if CHR ''.'' \<notin> set t then 0
      else if hd t = CHR ''0'' then 2 else 1)"

text \<open>How a character is escaped: as itself, or as a backslash and a tail.\<close>

definition escape_tail :: "char \<Rightarrow> string option" where
  "escape_tail c =
     (if c = CHR 0x22 then Some [CHR 0x22]
      else if c = CHR 0x5C then Some [CHR 0x5C]
      else if c = CHR 0x08 then Some ''b''
      else if c = CHR 0x0C then Some ''f''
      else if c = CHR 0x0A then Some ''n''
      else if c = CHR 0x0D then Some ''r''
      else if c = CHR 0x09 then Some ''t''
      else if (of_char c :: nat) < 32 then
        Some [CHR ''u'', CHR ''0'', CHR ''0'',
              hex_digit (of_char c div 16), hex_digit (of_char c mod 16)]
      else None)"

text \<open>The first character of a serialised plain value tells its constructor.\<close>

fun opens :: "json \<Rightarrow> char set" where
  "opens JNull = {CHR ''n''}"
| "opens (JBool b) = {CHR ''t'', CHR ''f''}"
| "opens (JNum x) = insert CHR ''-'' digit_chars"
| "opens (JStr s) = {CHR 0x22}"
| "opens (JArr vs) = {CHR ''[''}"
| "opens (JObj ps) = {CHR ''{''}"

definition delim :: "string \<Rightarrow> bool" where
  "delim r \<longleftrightarrow> r = [] \<or> hd r \<in> {CHR '','', CHR '']'', CHR ''}''}"

fun changed_of :: "effect \<Rightarrow> bool option" where
  "changed_of (Resolve q p) = Some (s_changed p)"
| "changed_of (PostMessage t n qy (Then_resolve f changed q g i)) = Some changed"
| "changed_of e = None"

text \<open>
  The values that \<^verbatim>\<open>JSON.stringify\<close> writes in full. A number is
  \<open>plain_number\<close> when it is finite and is not the negative zero (and is given as
  \<^verbatim>\<open>Number::toString\<close> sees it: the last digit of \<open>s\<close> is not a zero, and zero has
  \<open>n = 0\<close>). A value is \<open>plain\<close> when every number in it is, no element of an array and
  no value of a property is \<^verbatim>\<open>undefined\<close>, and an object has every key once (as every
  object has).
\<close>

fun plain_number :: "js_number \<Rightarrow> bool" where
  "plain_number (Decimal neg s n) = (if s = 0 then \<not> neg \<and> n = 0 else s mod 10 \<noteq> 0)"
| "plain_number x = False"

fun plain :: "json \<Rightarrow> bool" where
  "plain (JNum x) = plain_number x"
| "plain (JArr vs) = (\<forall>e \<in> set vs. case e of None \<Rightarrow> False | Some v \<Rightarrow> plain v)"
| "plain (JObj ps) =
     (distinct (map fst ps) \<and> (\<forall>(k, e) \<in> set ps. case e of None \<Rightarrow> False | Some v \<Rightarrow> plain v))"
| "plain v = True"

text \<open>
  Structural equality, as the specification names it: two values are equal when they are
  the same primitive value (a number is equal to itself, and the two zeros are equal), or
  arrays of the same length with equal elements, or objects with the same keys and equal
  values under every key, whatever the order of the keys.
\<close>

fun same_number :: "js_number \<Rightarrow> js_number \<Rightarrow> bool" where
  "same_number (Decimal neg s n) (Decimal neg' s' n') =
     (if s = 0 \<or> s' = 0 then s = s' else neg = neg' \<and> s = s' \<and> n = n')"
| "same_number x y = (x = y)"

fun deep_equal :: "json \<Rightarrow> json \<Rightarrow> bool" where
  "deep_equal JNull JNull = True"
| "deep_equal (JBool a) (JBool b) = (a = b)"
| "deep_equal (JNum x) (JNum y) = same_number x y"
| "deep_equal (JStr s) (JStr t) = (s = t)"
| "deep_equal (JArr vs) (JArr ws) =
     list_all2
       (\<lambda>a b. case a of
                None \<Rightarrow> b = None
              | Some v \<Rightarrow> (case b of None \<Rightarrow> False | Some w \<Rightarrow> deep_equal v w)) vs ws"
| "deep_equal (JObj ps) (JObj qs) =
     (set (map fst ps) = set (map fst qs) \<and>
      (\<forall>(k, a) \<in> set ps. \<forall>(k', b) \<in> set qs. k = k' \<longrightarrow>
         (case a of
            None \<Rightarrow> b = None
          | Some v \<Rightarrow> (case b of None \<Rightarrow> False | Some w \<Rightarrow> deep_equal v w))))"
| "deep_equal v w = False"

definition feature_a :: json where
  "feature_a =
     JObj [(''properties'',
              Some (JObj [(''id'', Some (JNum (Decimal False 7 1))),
                          (''name'', Some (JStr ''Main St''))])),
           (''source_name'', Some (JStr ''osm''))]"

definition feature_b :: json where
  "feature_b =
     JObj [(''properties'',
              Some (JObj [(''id'', Some (JNum (Decimal False 8 1))),
                          (''name'', Some (JStr ''Main St''))])),
           (''source_name'', Some (JStr ''osm''))]"

text \<open>
  \<open>feature_a\<close> with its properties in another order, and \<open>feature_a\<close> with one more
  property, whose value is \<^verbatim>\<open>undefined\<close>.
\<close>

definition feature_reordered :: json where
  "feature_reordered =
     JObj [(''properties'',
              Some (JObj [(''name'', Some (JStr ''Main St'')),
                          (''id'', Some (JNum (Decimal False 7 1)))])),
           (''source_name'', Some (JStr ''osm''))]"

definition feature_undefined :: json where
  "feature_undefined =
     JObj [(''properties'',
              Some (JObj [(''id'', Some (JNum (Decimal False 7 1))),
                          (''name'', Some (JStr ''Main St'')),
                          (''ref'', None)])),
           (''source_name'', Some (JStr ''osm''))]"

definition fs_selected :: FeatureSelection where
  "fs_selected = fs_two\<lparr>feature := Some feature_a\<rparr>"

definition reply_with :: "json \<Rightarrow> message" where
  "reply_with f = \<lparr>msg_id = 0, msg_feature = Some f, msg_group = Some group_roads\<rparr>"

lemma digit_nth: "d < 10 \<Longrightarrow> ''0123456789'' ! d \<in> digit_chars"
  unfolding digit_chars_def by (rule nth_mem) simp

lemma digit_inj:
  assumes "d < 10" "e < 10" "''0123456789'' ! d = ''0123456789'' ! e"
  shows "d = e"
proof -
  have "distinct ''0123456789''" by simp
  moreover have "d < length ''0123456789''" "e < length ''0123456789''" using assms by simp_all
  ultimately show ?thesis using assms(3) by (simp only: nth_eq_iff_index_eq)
qed

lemma decimal_nonempty: "decimal n \<noteq> []"
  by (subst decimal.simps) simp

lemma decimal_digits: "set (decimal n) \<subseteq> digit_chars"
proof (induction n rule: decimal.induct)
  case (1 n)
  show ?case
  proof (cases "n < 10")
    case True
    then show ?thesis by (subst decimal.simps) (simp add: digit_nth)
  next
    case False
    then show ?thesis using 1 by (subst decimal.simps) (simp add: digit_nth)
  qed
qed

lemma decimal_inj: "decimal a = decimal b \<Longrightarrow> a = b"
proof (induction a arbitrary: b rule: decimal.induct)
  case (1 a)
  show ?case
  proof (cases "a < 10")
    case a: True
    show ?thesis
    proof (cases "b < 10")
      case True
      then show ?thesis using a "1.prems" digit_inj [of a b]
        by (simp add: decimal.simps [of a] decimal.simps [of b])
    next
      case False
      then show ?thesis using a "1.prems" decimal_nonempty [of "b div 10"]
        by (simp add: decimal.simps [of a] decimal.simps [of b])
    qed
  next
    case a: False
    show ?thesis
    proof (cases "b < 10")
      case True
      then show ?thesis using a "1.prems" decimal_nonempty [of "a div 10"]
        by (simp add: decimal.simps [of a] decimal.simps [of b])
    next
      case False
      then have "decimal (a div 10) = decimal (b div 10)"
        and "''0123456789'' ! (a mod 10) = ''0123456789'' ! (b mod 10)"
        using a "1.prems" by (simp_all add: decimal.simps [of a] decimal.simps [of b])
      then have "a div 10 = b div 10" and "a mod 10 = b mod 10"
        using "1.IH" [OF a] digit_inj [of "a mod 10" "b mod 10"] by simp_all
      then show ?thesis by (metis div_mult_mod_eq)
    qed
  qed
qed

text \<open>The first digit of a positive number is not a zero; the last digit is the unit.\<close>

lemma digit_zero: "d < 10 \<Longrightarrow> ''0123456789'' ! d = CHR ''0'' \<Longrightarrow> d = 0"
  using digit_inj [of d 0] by simp

lemma decimal_hd: "0 < s \<Longrightarrow> hd (decimal s) \<noteq> CHR ''0''"
proof (induction s rule: decimal.induct)
  case (1 s)
  show ?case
  proof (cases "s < 10")
    case True
    then show ?thesis using "1.prems" digit_zero [of s] by (subst decimal.simps) auto
  next
    case False
    then have "hd (decimal (s div 10)) \<noteq> CHR ''0''" using 1 by simp
    then show ?thesis using False decimal_nonempty [of "s div 10"]
      by (subst decimal.simps) simp
  qed
qed

lemma decimal_last: "last (decimal s) = ''0123456789'' ! (s mod 10)"
  by (subst decimal.simps) simp

lemma decimal_last_nonzero: "s mod 10 \<noteq> 0 \<Longrightarrow> last (decimal s) \<noteq> CHR ''0''"
  using digit_zero [of "s mod 10"] by (auto simp add: decimal_last)

text \<open>Two strings of digits, each followed by something that does not start with a digit.\<close>

lemma digits_delimited:
  assumes "set xs \<subseteq> D" "set ys \<subseteq> D" "xs @ r = ys @ r'"
    and "r = [] \<or> hd r \<notin> D" "r' = [] \<or> hd r' \<notin> D"
  shows "xs = ys \<and> r = r'"
  using assms
proof (induction xs arbitrary: ys)
  case Nil
  show ?case
  proof (cases ys)
    case Nil
    then show ?thesis using Nil.prems by simp
  next
    case (Cons y ys')
    then have "r \<noteq> []" "hd r = y" "y \<in> D" using Nil.prems by auto
    then show ?thesis using Nil.prems(4) by simp
  qed
next
  case (Cons x xs)
  show ?case
  proof (cases ys)
    case Nil
    then have "r' \<noteq> []" "hd r' = x" "x \<in> D" using Cons.prems by auto
    then show ?thesis using Cons.prems(5) by simp
  next
    case (Cons y ys')
    then have "x = y" "xs @ r = ys' @ r'" using Cons.prems(3) by simp_all
    moreover have "set xs \<subseteq> D" "set ys' \<subseteq> D" using Cons.prems(1,2) Cons by simp_all
    ultimately show ?thesis using Cons.IH [of ys'] Cons.prems(4,5) Cons by simp
  qed
qed

text \<open>
  Zeros before a string that does not start with a zero, and after one that does not end
  with one.
\<close>

lemma leading_zeros:
  assumes "replicate a z @ xs = replicate b z @ ys"
    and "xs \<noteq> []" "hd xs \<noteq> z" "ys \<noteq> []" "hd ys \<noteq> z"
  shows "a = b \<and> xs = ys"
  using assms(1)
proof (induction a arbitrary: b)
  case 0
  show ?case
  proof (cases b)
    case 0
    then show ?thesis using "0.prems" by simp
  next
    case (Suc b')
    then have "hd xs = z" using "0.prems" by simp
    then show ?thesis using assms(3) by simp
  qed
next
  case (Suc a)
  show ?case
  proof (cases b)
    case 0
    then have "hd ys = z" using Suc.prems by (metis append_Nil list.sel(1) replicate_0 replicate_Suc append_Cons)
    then show ?thesis using assms(5) by simp
  next
    case (Suc b')
    then have "replicate a z @ xs = replicate b' z @ ys" using Suc.prems by simp
    then show ?thesis using Suc.IH Suc by simp
  qed
qed

lemma trailing_zeros:
  assumes "xs @ replicate a z = ys @ replicate b z"
    and "xs \<noteq> []" "last xs \<noteq> z" "ys \<noteq> []" "last ys \<noteq> z"
  shows "xs = ys \<and> a = b"
proof -
  have "rev (xs @ replicate a z) = rev (ys @ replicate b z)" using assms(1) by simp
  then have "replicate a z @ rev xs = replicate b z @ rev ys" by simp
  moreover have "rev xs \<noteq> []" "hd (rev xs) \<noteq> z" using assms(2,3) by (simp_all add: hd_rev)
  moreover have "rev ys \<noteq> []" "hd (rev ys) \<noteq> z" using assms(4,5) by (simp_all add: hd_rev)
  ultimately have "a = b \<and> rev xs = rev ys" by (rule leading_zeros)
  then show ?thesis by simp
qed

text \<open>The four notations of \<open>digits_text\<close>.\<close>

lemma digits_text_cases:
  obtains
    (whole) "int (length (decimal s)) \<le> n" "n \<le> 21"
      "digits_text s n = decimal s @ replicate (nat (n - int (length (decimal s)))) CHR ''0''"
  | (point) "0 < n" "n < int (length (decimal s))" "n \<le> 21"
      "digits_text s n = take (nat n) (decimal s) @ ''.'' @ drop (nat n) (decimal s)"
  | (small) "- 6 < n" "n \<le> 0"
      "digits_text s n = ''0.'' @ replicate (nat (- n)) CHR ''0'' @ decimal s"
  | (expo) "n \<le> - 6 \<or> 21 < n"
      "digits_text s n = mantissa (decimal s) @ ''e'' @ exponent n"
proof -
  have k: "0 < int (length (decimal s))" using decimal_nonempty [of s] by simp
  consider "int (length (decimal s)) \<le> n \<and> n \<le> 21"
    | "\<not> (int (length (decimal s)) \<le> n \<and> n \<le> 21)" "0 < n \<and> n \<le> 21"
    | "\<not> (0 < n \<and> n \<le> 21)" "- 6 < n \<and> n \<le> 0"
    | "n \<le> - 6 \<or> 21 < n"
    by linarith
  then show ?thesis
  proof cases
    case 1
    then have a: "(int (length (decimal s)) \<le> n \<and> n \<le> 21) = True" by simp
    have "digits_text s n = decimal s @ replicate (nat (n - int (length (decimal s)))) CHR ''0''"
      by (simp only: digits_text_def Let_def a if_True)
    then show ?thesis using 1 by (intro whole) simp_all
  next
    case 2
    then have a: "(int (length (decimal s)) \<le> n \<and> n \<le> 21) = False"
      and b: "(0 < n \<and> n \<le> 21) = True" by simp_all
    have "digits_text s n = take (nat n) (decimal s) @ ''.'' @ drop (nat n) (decimal s)"
      by (simp only: digits_text_def Let_def a b if_True if_False)
    then show ?thesis using 2 by (intro point) linarith+
  next
    case 3
    then have "\<not> (int (length (decimal s)) \<le> n \<and> n \<le> 21)" using k by linarith
    then have a: "(int (length (decimal s)) \<le> n \<and> n \<le> 21) = False" by simp
    have b: "(0 < n \<and> n \<le> 21) = False" and c: "(- 6 < n \<and> n \<le> 0) = True"
      using 3 by simp_all
    have "digits_text s n = ''0.'' @ replicate (nat (- n)) CHR ''0'' @ decimal s"
      by (simp only: digits_text_def Let_def a b c if_True if_False)
    then show ?thesis using 3 by (intro small) simp_all
  next
    case 4
    then have "\<not> (int (length (decimal s)) \<le> n \<and> n \<le> 21)" "\<not> (0 < n \<and> n \<le> 21)"
      "\<not> (- 6 < n \<and> n \<le> 0)"
      using k by linarith+
    then have a: "(int (length (decimal s)) \<le> n \<and> n \<le> 21) = False"
      and b: "(0 < n \<and> n \<le> 21) = False" and c: "(- 6 < n \<and> n \<le> 0) = False"
      by simp_all
    have "digits_text s n = mantissa (decimal s) @ ''e'' @ exponent n"
      by (simp only: digits_text_def Let_def a b c if_False mantissa_def exponent_def)
    then show ?thesis using 4 by (intro expo)
  qed
qed

lemma not_digit [simp]:
  "CHR ''.'' \<notin> digit_chars" "CHR ''e'' \<notin> digit_chars" "CHR ''-'' \<notin> digit_chars"
  "CHR ''+'' \<notin> digit_chars"
  by (simp_all add: digit_chars_def)

lemma decimal_plain [simp]: "CHR ''.'' \<notin> set (decimal s)" "CHR ''e'' \<notin> set (decimal s)"
  using decimal_digits [of s] not_digit by blast+

lemma take_plain [simp]:
  "CHR ''.'' \<notin> set (take m (decimal s))" "CHR ''e'' \<notin> set (take m (decimal s))"
  "CHR ''.'' \<notin> set (drop m (decimal s))" "CHR ''e'' \<notin> set (drop m (decimal s))"
  using decimal_plain [of s] by (auto dest: in_set_takeD in_set_dropD)

lemma hd_take: "0 < m \<Longrightarrow> hd (take m xs) = hd xs"
  by (cases xs; cases m) simp_all

lemma form_whole: "text_form (decimal s @ replicate a CHR ''0'') = 0"
  by (auto simp add: text_form_def)

lemma form_point:
  assumes "0 < s" "0 < (n :: int)"
    and "t = take (nat n) (decimal s) @ ''.'' @ drop (nat n) (decimal s)"
  shows "text_form t = 1"
proof -
  have m: "0 < nat n" using assms(2) by simp
  then have "take (nat n) (decimal s) \<noteq> []" using decimal_nonempty [of s] by simp
  then have "hd t = hd (decimal s)"
    using m by (simp add: assms(3) hd_take)
  then show ?thesis using decimal_hd [OF assms(1)] by (simp add: text_form_def assms(3))
qed

lemma form_small: "text_form (''0.'' @ replicate a CHR ''0'' @ decimal s) = 2"
  by (auto simp add: text_form_def)

lemma form_expo: "text_form (m @ ''e'' @ x) = 3"
  by (simp add: text_form_def)

lemma mantissa_chars: "set (mantissa (decimal s)) \<subseteq> insert CHR ''.'' digit_chars"
proof -
  have "hd (decimal s) \<in> set (decimal s)" using decimal_nonempty by simp
  moreover have "set (tl (decimal s)) \<subseteq> set (decimal s)"
    using decimal_nonempty [of s] by (cases "decimal s") auto
  ultimately show ?thesis using decimal_digits [of s] by (auto simp add: mantissa_def)
qed

lemma mantissa_inj:
  assumes "ds \<noteq> []" "ds' \<noteq> []" "mantissa ds = mantissa ds'"
  shows "ds = ds'"
proof -
  obtain d t where ds: "ds = d # t" using assms(1) by (cases ds) auto
  obtain d' t' where ds': "ds' = d' # t'" using assms(2) by (cases ds') auto
  show ?thesis
    using assms(3) unfolding ds ds' mantissa_def
    by (cases "t = []"; cases "t' = []") (auto split: if_splits)
qed

lemma exponent_inj:
  assumes "exponent n = exponent n'"
  shows "n = n'"
proof -
  have d: "decimal (nat \<bar>n - 1\<bar>) = decimal (nat \<bar>n' - 1\<bar>)" and s: "(n - 1 < 0) = (n' - 1 < 0)"
    using assms unfolding exponent_def by (auto split: if_splits)
  from d have "nat \<bar>n - 1\<bar> = nat \<bar>n' - 1\<bar>" by (rule decimal_inj)
  then show ?thesis using s by linarith
qed

lemma digits_text_inj:
  assumes "0 < s" "s mod 10 \<noteq> 0" "0 < s'" "s' mod 10 \<noteq> 0"
    and eq: "digits_text s n = digits_text s' n'"
  shows "s = s' \<and> n = n'"
proof -
  let ?ds = "decimal s" and ?ds' = "decimal s'"
  have ne: "?ds \<noteq> []" "?ds' \<noteq> []" by (rule decimal_nonempty)+
  have l: "last ?ds \<noteq> CHR ''0''" "last ?ds' \<noteq> CHR ''0''"
    using assms(2,4) by (simp_all add: decimal_last_nonzero)
  have h: "hd ?ds \<noteq> CHR ''0''" "hd ?ds' \<noteq> CHR ''0''"
    using assms(1,3) by (simp_all add: decimal_hd)
  have same: "s = s'" if "?ds = ?ds'" using that by (rule decimal_inj)
  show ?thesis
  proof (cases rule: digits_text_cases [of s n])
    case whole
    then have f: "text_form (digits_text s n) = 0" by (simp only: form_whole)
    show ?thesis
    proof (cases rule: digits_text_cases [of s' n'])
      case w: whole
      have "?ds @ replicate (nat (n - int (length ?ds))) CHR ''0''
          = ?ds' @ replicate (nat (n' - int (length ?ds'))) CHR ''0''"
        using eq whole(3) w(3) by simp
      then have "?ds = ?ds' \<and> nat (n - int (length ?ds)) = nat (n' - int (length ?ds'))"
        using ne(1) l(1) ne(2) l(2) by (rule trailing_zeros)
      then show ?thesis using same whole(1) w(1) by auto
    next
      case point
      have "text_form (digits_text s' n') = 1"
        using assms(3) point(1) point(4) by (rule form_point)
      then show ?thesis using f eq by simp
    next
      case small
      then have "text_form (digits_text s' n') = 2" by (simp only: form_small)
      then show ?thesis using f eq by simp
    next
      case expo
      then have "text_form (digits_text s' n') = 3" by (simp only: form_expo)
      then show ?thesis using f eq by simp
    qed
  next
    case point
    have f: "text_form (digits_text s n) = 1"
      using assms(1) point(1) point(4) by (rule form_point)
    show ?thesis
    proof (cases rule: digits_text_cases [of s' n'])
      case whole
      then have "text_form (digits_text s' n') = 0" by (simp only: form_whole)
      then show ?thesis using f eq by simp
    next
      case p: point
      have e: "take (nat n) ?ds @ (CHR ''.'' # drop (nat n) ?ds)
             = take (nat n') ?ds' @ (CHR ''.'' # drop (nat n') ?ds')"
        using eq point(4) p(4) by simp
      have "set (take (nat n) ?ds) \<subseteq> digit_chars" "set (take (nat n') ?ds') \<subseteq> digit_chars"
        using decimal_digits [of s] decimal_digits [of s'] by (auto dest: in_set_takeD)
      then have "take (nat n) ?ds = take (nat n') ?ds'
           \<and> CHR ''.'' # drop (nat n) ?ds = CHR ''.'' # drop (nat n') ?ds'"
        using e by (rule digits_delimited) simp_all
      then have t: "take (nat n) ?ds = take (nat n') ?ds'"
        and d: "drop (nat n) ?ds = drop (nat n') ?ds'" by simp_all
      have "?ds = take (nat n) ?ds @ drop (nat n) ?ds" by simp
      also have "\<dots> = take (nat n') ?ds' @ drop (nat n') ?ds'" by (simp only: t d)
      also have "\<dots> = ?ds'" by simp
      finally have ds: "?ds = ?ds'" .
      have "length (take (nat n) ?ds) = nat n" "length (take (nat n') ?ds') = nat n'"
        using point(1,2) p(1,2) by simp_all
      then have "nat n = nat n'" using t by simp
      then show ?thesis using same [OF ds] point(1) p(1) by simp
    next
      case small
      then have "text_form (digits_text s' n') = 2" by (simp only: form_small)
      then show ?thesis using f eq by simp
    next
      case expo
      then have "text_form (digits_text s' n') = 3" by (simp only: form_expo)
      then show ?thesis using f eq by simp
    qed
  next
    case small
    then have f: "text_form (digits_text s n) = 2" by (simp only: form_small)
    show ?thesis
    proof (cases rule: digits_text_cases [of s' n'])
      case whole
      then have "text_form (digits_text s' n') = 0" by (simp only: form_whole)
      then show ?thesis using f eq by simp
    next
      case point
      have "text_form (digits_text s' n') = 1"
        using assms(3) point(1) point(4) by (rule form_point)
      then show ?thesis using f eq by simp
    next
      case sm: small
      have "replicate (nat (- n)) CHR ''0'' @ ?ds = replicate (nat (- n')) CHR ''0'' @ ?ds'"
        using eq small(3) sm(3) by simp
      then have "nat (- n) = nat (- n') \<and> ?ds = ?ds'"
        using ne(1) h(1) ne(2) h(2) by (rule leading_zeros)
      then show ?thesis using same small(2) sm(2) by auto
    next
      case expo
      then have "text_form (digits_text s' n') = 3" by (simp only: form_expo)
      then show ?thesis using f eq by simp
    qed
  next
    case expo
    then have f: "text_form (digits_text s n) = 3" by (simp only: form_expo)
    show ?thesis
    proof (cases rule: digits_text_cases [of s' n'])
      case whole
      then have "text_form (digits_text s' n') = 0" by (simp only: form_whole)
      then show ?thesis using f eq by simp
    next
      case point
      have "text_form (digits_text s' n') = 1"
        using assms(3) point(1) point(4) by (rule form_point)
      then show ?thesis using f eq by simp
    next
      case small
      then have "text_form (digits_text s' n') = 2" by (simp only: form_small)
      then show ?thesis using f eq by simp
    next
      case ex: expo
      have e: "mantissa ?ds @ (CHR ''e'' # exponent n) = mantissa ?ds' @ (CHR ''e'' # exponent n')"
        using eq expo(2) ex(2) by simp
      have "mantissa ?ds = mantissa ?ds' \<and> CHR ''e'' # exponent n = CHR ''e'' # exponent n'"
        using mantissa_chars mantissa_chars e by (rule digits_delimited) simp_all
      then have "?ds = ?ds'" and "n = n'"
        using mantissa_inj [OF ne] exponent_inj by simp_all
      then show ?thesis using same by simp
    qed
  qed
qed

text \<open>\<^verbatim>\<open>Number::toString\<close> on the numbers that are \<open>plain_number\<close>.\<close>

lemma digits_text_start: "\<exists>c t. digits_text s n = c # t \<and> c \<in> digit_chars"
proof -
  obtain d t where ds: "decimal s = d # t" using decimal_nonempty [of s] by (cases "decimal s") auto
  then have d: "d \<in> digit_chars" using decimal_digits [of s] by simp
  show ?thesis
  proof (cases rule: digits_text_cases [of s n])
    case whole
    then show ?thesis using ds d by simp
  next
    case point
    then obtain m where "nat n = Suc m" by (cases "nat n") auto
    then show ?thesis using point(4) ds d by simp
  next
    case small
    then show ?thesis by (simp add: digit_chars_def)
  next
    case expo
    then show ?thesis using ds d by (simp add: mantissa_def)
  qed
qed

lemma exponent_chars: "set (exponent n) \<subseteq> number_chars"
  using decimal_digits [of "nat \<bar>n - 1\<bar>"] by (auto simp add: exponent_def number_chars_def)

lemma digits_text_chars: "set (digits_text s n) \<subseteq> number_chars"
proof -
  have ds: "set (decimal s) \<subseteq> number_chars"
    using decimal_digits [of s] by (auto simp add: number_chars_def)
  show ?thesis
  proof (cases rule: digits_text_cases [of s n])
    case whole
    then show ?thesis using ds by (auto simp add: number_chars_def digit_chars_def)
  next
    case point
    then show ?thesis using ds
      by (auto simp add: number_chars_def dest!: in_set_takeD in_set_dropD)
  next
    case small
    then show ?thesis using ds by (auto simp add: number_chars_def digit_chars_def)
  next
    case expo
    then show ?thesis using mantissa_chars [of s] exponent_chars [of n]
      by (auto simp add: number_chars_def)
  qed
qed

lemma digits_text_not_zero:
  assumes "0 < s"
  shows "digits_text s n \<noteq> ''0''"
proof (cases rule: digits_text_cases [of s n])
  case whole
  have "hd (digits_text s n) = hd (decimal s)"
    using decimal_nonempty [of s] by (simp add: whole(3))
  then show ?thesis using decimal_hd [OF assms] by auto
next
  case point
  have "text_form (digits_text s n) = 1" using assms point(1) point(4) by (rule form_point)
  then show ?thesis by (auto simp add: text_form_def)
next
  case small
  then show ?thesis by simp
next
  case expo
  then have "text_form (digits_text s n) = 3" by (simp only: form_expo)
  then show ?thesis by (auto simp add: text_form_def)
qed

lemma number_inj:
  assumes "plain_number a" "plain_number b" "js_Number_toString a = js_Number_toString b"
  shows "a = b"
proof -
  obtain neg s n where a: "a = Decimal neg s n" using assms(1) by (cases a) simp_all
  obtain neg' s' n' where b: "b = Decimal neg' s' n'" using assms(2) by (cases b) simp_all
  obtain c t where st: "digits_text s n = c # t" "c \<in> digit_chars"
    using digits_text_start by blast
  obtain c' t' where st': "digits_text s' n' = c' # t'" "c' \<in> digit_chars"
    using digits_text_start by blast
  show ?thesis
  proof (cases "s = 0")
    case True
    show ?thesis
    proof (cases "s' = 0")
      case s': True
      then show ?thesis using True assms(1,2) a b by simp
    next
      case False
      then have "(if neg' then ''-'' else []) @ digits_text s' n' = ''0''"
        using True assms(3) a b by simp
      then show ?thesis using digits_text_not_zero [of s' n'] False
        by (cases neg') auto
    qed
  next
    case False
    show ?thesis
    proof (cases "s' = 0")
      case True
      then have "(if neg then ''-'' else []) @ digits_text s n = ''0''"
        using False assms(3) a b by simp
      then show ?thesis using digits_text_not_zero [of s n] False
        by (cases neg) auto
    next
      case s': False
      have e: "(if neg then ''-'' else []) @ digits_text s n
             = (if neg' then ''-'' else []) @ digits_text s' n'"
        using False s' assms(3) a b by simp
      have sign: "neg = neg'"
        using e st st' by (cases neg; cases neg') auto
      then have "digits_text s n = digits_text s' n'" using e by simp
      moreover have "0 < s" "s mod 10 \<noteq> 0" "0 < s'" "s' mod 10 \<noteq> 0"
        using False s' assms(1,2) a b by simp_all
      ultimately have "s = s' \<and> n = n'" by (intro digits_text_inj)
      then show ?thesis using sign a b by simp
    qed
  qed
qed

lemma number_text_chars: "set (js_Number_toString (Decimal neg s n)) \<subseteq> number_chars"
  using digits_text_chars [of s n] by (auto simp add: number_chars_def digit_chars_def)

lemma number_delimited:
  assumes "plain_number a" "plain_number b"
    and "js_Number_toString a @ r = js_Number_toString b @ r'"
    and "r = [] \<or> hd r \<notin> number_chars" "r' = [] \<or> hd r' \<notin> number_chars"
  shows "a = b \<and> r = r'"
proof -
  obtain neg s n where a: "a = Decimal neg s n" using assms(1) by (cases a) simp_all
  obtain neg' s' n' where b: "b = Decimal neg' s' n'" using assms(2) by (cases b) simp_all
  have "set (js_Number_toString a) \<subseteq> number_chars" "set (js_Number_toString b) \<subseteq> number_chars"
    unfolding a b by (rule number_text_chars)+
  then have "js_Number_toString a = js_Number_toString b \<and> r = r'"
    using assms(3,4,5) by (rule digits_delimited)
  then show ?thesis using number_inj [OF assms(1,2)] by simp
qed

lemma hex_inj:
  assumes "d < 16" "e < 16" "hex_digit d = hex_digit e"
  shows "d = e"
proof -
  have "distinct ''0123456789abcdef''" by simp
  moreover have "d < length ''0123456789abcdef''" "e < length ''0123456789abcdef''"
    using assms by simp_all
  ultimately show ?thesis using assms(3) unfolding hex_digit_def by (simp only: nth_eq_iff_index_eq)
qed

lemma control_inj:
  assumes "(of_char c :: nat) < 32" "(of_char c' :: nat) < 32"
    and "hex_digit (of_char c div 16) = hex_digit (of_char c' div 16)"
    and "hex_digit (of_char c mod 16) = hex_digit (of_char c' mod 16)"
  shows "c = c'"
proof -
  have "(of_char c :: nat) div 16 = of_char c' div 16"
    using assms(1,2,3) by (intro hex_inj) simp_all
  moreover have "(of_char c :: nat) mod 16 = of_char c' mod 16"
    using assms(4) by (intro hex_inj) simp_all
  ultimately have "(of_char c :: nat) = of_char c'" by (metis div_mult_mod_eq)
  then show ?thesis by simp
qed

lemma json_escape_tail:
  "json_escape c = (case escape_tail c of None \<Rightarrow> [c] | Some t \<Rightarrow> CHR 0x5C # t)"
  by (simp add: json_escape_def escape_tail_def)

lemma escape_tail_None: "escape_tail c = None \<Longrightarrow> c \<noteq> CHR 0x22 \<and> c \<noteq> CHR 0x5C"
  by (auto simp add: escape_tail_def split: if_splits)

lemma escape_tail_inj:
  assumes "escape_tail c = Some t" "escape_tail c' = Some t'" "t @ x = t' @ x'"
  shows "c = c' \<and> x = x'"
proof -
  have "c = c' \<and> t = t'"
    using assms control_inj [of c c']
    by (auto simp add: escape_tail_def split: if_splits)
  then show ?thesis using assms(3) by simp
qed

lemma json_escape_inj:
  assumes "json_escape c @ x = json_escape c' @ x'"
  shows "c = c' \<and> x = x'"
proof (cases "escape_tail c")
  case None
  show ?thesis
  proof (cases "escape_tail c'")
    case n': None
    then show ?thesis using None assms by (simp add: json_escape_tail)
  next
    case (Some t')
    then have "c = CHR 0x5C" using None assms by (simp add: json_escape_tail)
    then show ?thesis using escape_tail_None [OF None] by simp
  qed
next
  case (Some t)
  show ?thesis
  proof (cases "escape_tail c'")
    case None
    then have "c' = CHR 0x5C" using Some assms by (simp add: json_escape_tail)
    then show ?thesis using escape_tail_None [OF None] by simp
  next
    case s': (Some t')
    then have "t @ x = t' @ x'" using Some assms by (simp add: json_escape_tail)
    with Some s' show ?thesis by (rule escape_tail_inj)
  qed
qed

lemma json_escape_not_quote: "json_escape c @ x \<noteq> CHR 0x22 # y"
  using escape_tail_None [of c]
  by (cases "escape_tail c") (auto simp add: json_escape_tail)

lemma escaped_inj:
  assumes "concat (map json_escape s) @ CHR 0x22 # r = concat (map json_escape s') @ CHR 0x22 # r'"
  shows "s = s' \<and> r = r'"
  using assms
proof (induction s arbitrary: s')
  case Nil
  show ?case
  proof (cases s')
    case Nil
    then show ?thesis using Nil.prems by simp
  next
    case (Cons c cs)
    then show ?thesis
      using Nil.prems json_escape_not_quote [of c "concat (map json_escape cs) @ CHR 0x22 # r'" r]
      by simp
  qed
next
  case (Cons c cs)
  show ?case
  proof (cases s')
    case Nil
    then show ?thesis
      using Cons.prems json_escape_not_quote [of c "concat (map json_escape cs) @ CHR 0x22 # r" r']
      by simp
  next
    case c': (Cons c' cs')
    then have "json_escape c @ (concat (map json_escape cs) @ CHR 0x22 # r)
             = json_escape c' @ (concat (map json_escape cs') @ CHR 0x22 # r')"
      using Cons.prems by simp
    then have "c = c'"
      and "concat (map json_escape cs) @ CHR 0x22 # r = concat (map json_escape cs') @ CHR 0x22 # r'"
      using json_escape_inj by blast+
    then show ?thesis using Cons.IH [of cs'] c' by simp
  qed
qed

lemma json_quote_inj:
  assumes "json_quote s @ r = json_quote s' @ r'"
  shows "s = s' \<and> r = r'"
  using assms escaped_inj [of s r s' r'] by (simp add: json_quote_def)

text \<open>How a serialised value starts, and what follows it.\<close>

lemma number_text_start:
  "\<exists>c t. js_Number_toString (Decimal neg s n) = c # t \<and> c \<in> insert CHR ''-'' digit_chars"
proof -
  obtain c t where "digits_text s n = c # t" "c \<in> digit_chars"
    using digits_text_start by blast
  then show ?thesis by (cases neg) (auto simp add: digit_chars_def)
qed

lemma stringify_opens:
  assumes "plain v"
  shows "\<exists>c t. JSON_stringify v = c # t \<and> c \<in> opens v"
proof (cases v)
  case (JNum x)
  then obtain neg s n where "x = Decimal neg s n" using assms by (cases x) simp_all
  then show ?thesis using JNum number_text_start [of neg s n] by simp
qed (auto simp add: json_quote_def)

lemma stringify_start:
  "\<exists>c t. JSON_stringify v = c # t \<and> c \<noteq> CHR '','' \<and> c \<noteq> CHR '']'' \<and> c \<noteq> CHR ''}''"
proof (cases v)
  case (JNum x)
  show ?thesis
  proof (cases x)
    case (Decimal neg s n)
    obtain c t where "js_Number_toString (Decimal neg s n) = c # t"
      "c \<in> insert CHR ''-'' digit_chars"
      using number_text_start by blast
    then show ?thesis using JNum Decimal by (auto simp add: digit_chars_def)
  qed (simp_all add: JNum)
qed (auto simp add: json_quote_def)

lemma opens_disjoint:
  assumes "c \<in> opens v" "c \<in> opens w"
  shows "(case v of JNull \<Rightarrow> w = JNull | JBool b \<Rightarrow> (\<exists>b'. w = JBool b')
          | JNum n \<Rightarrow> (\<exists>n'. w = JNum n') | JStr s \<Rightarrow> (\<exists>s'. w = JStr s')
          | JArr vs \<Rightarrow> (\<exists>ws. w = JArr ws) | JObj ps \<Rightarrow> (\<exists>qs. w = JObj qs))"
  using assms by (cases v; cases w) (auto simp add: digit_chars_def)

lemma delim_simps [simp]:
  "delim []" "delim (CHR '','' # r)" "delim (CHR '']'' # r)" "delim (CHR ''}'' # r)"
  by (simp_all add: delim_def)

lemma delim_not_number: "delim r \<Longrightarrow> r = [] \<or> hd r \<notin> number_chars"
  by (auto simp add: delim_def number_chars_def digit_chars_def)

lemma join_with_Cons:
  "join_with sep (x # xs) = x @ (if xs = [] then [] else sep @ join_with sep xs)"
  by (cases xs) simp_all

lemma joined_inj:
  assumes inj: "\<And>x y r r'. x \<in> set xs \<Longrightarrow> y \<in> set ys \<Longrightarrow> delim r \<Longrightarrow> delim r'
                  \<Longrightarrow> F x @ r = F y @ r' \<Longrightarrow> x = y \<and> r = r'"
    and start: "\<And>y. \<exists>c t. F y = c # t \<and> c \<noteq> cl"
    and cl: "cl = CHR '']'' \<or> cl = CHR ''}''"
    and eq: "join_with '','' (map F xs) @ cl # r = join_with '','' (map F ys) @ cl # r'"
  shows "xs = ys \<and> r = r'"
  using inj eq
proof (induction xs arbitrary: ys)
  case Nil
  show ?case
  proof (cases ys)
    case Nil
    then show ?thesis using Nil.prems(2) by simp
  next
    case (Cons y ys')
    obtain c t where "F y = c # t" "c \<noteq> cl" using start by blast
    then show ?thesis using Nil.prems(2) Cons by (simp add: join_with_Cons)
  qed
next
  case (Cons x xs')
  show ?case
  proof (cases ys)
    case Nil
    obtain c t where "F x = c # t" "c \<noteq> cl" using start by blast
    then show ?thesis using Cons.prems(2) Nil by (simp add: join_with_Cons)
  next
    case ys: (Cons y ys')
    let ?T1 = "(if xs' = [] then [] else '','' @ join_with '','' (map F xs')) @ cl # r"
    let ?T2 = "(if ys' = [] then [] else '','' @ join_with '','' (map F ys')) @ cl # r'"
    have e: "F x @ ?T1 = F y @ ?T2"
      using Cons.prems(2) ys by (simp add: join_with_Cons)
    have d: "delim ?T1" "delim ?T2" using cl by auto
    have xy: "x = y" and T: "?T1 = ?T2"
      using Cons.prems(1) [of x y ?T1 ?T2] d e ys by simp_all
    show ?thesis
    proof (cases "xs' = []")
      case True
      then show ?thesis using T xy ys cl by (cases "ys' = []") auto
    next
      case False
      then have ne: "ys' \<noteq> []" using T cl by (cases "ys' = []") auto
      then have "join_with '','' (map F xs') @ cl # r = join_with '','' (map F ys') @ cl # r'"
        using T False by simp
      moreover have "x0 = y0 \<and> a = b"
        if "x0 \<in> set xs'" "y0 \<in> set ys'" "delim a" "delim b" "F x0 @ a = F y0 @ b" for x0 y0 a b
        using Cons.prems(1) [of x0 y0 a b] that ys by simp
      ultimately have "xs' = ys' \<and> r = r'" using Cons.IH [of ys'] by blast
      then show ?thesis using xy ys by simp
    qed
  qed
qed

text \<open>The members of a plain object: one for every property.\<close>

lemma plain_members:
  assumes "\<forall>(k, e) \<in> set ps. e \<noteq> None"
  shows "concat (map (\<lambda>(k, e). case e of
                        None \<Rightarrow> []
                      | Some v \<Rightarrow> [json_quote k @ '':'' @ JSON_stringify v]) ps)
       = map (\<lambda>(k, e). json_quote k @ '':'' @ JSON_stringify (the e)) ps"
  using assms by (induction ps) auto

lemma plain_elements:
  assumes "\<forall>e \<in> set vs. e \<noteq> None"
  shows "map (\<lambda>e. case e of None \<Rightarrow> ''null'' | Some v \<Rightarrow> JSON_stringify v) vs
       = map (\<lambda>e. JSON_stringify (the e)) vs"
  using assms by (induction vs) auto

lemma plain_JArr: "plain (JArr vs) \<Longrightarrow> e \<in> set vs \<Longrightarrow> \<exists>v. e = Some v \<and> plain v"
  by (cases e) auto

lemma plain_JObj: "plain (JObj ps) \<Longrightarrow> (k, e) \<in> set ps \<Longrightarrow> \<exists>v. e = Some v \<and> plain v"
  by (cases e) auto

lemma stringify_delimited:
  "plain v \<Longrightarrow> plain w \<Longrightarrow> delim r \<Longrightarrow> delim r'
     \<Longrightarrow> JSON_stringify v @ r = JSON_stringify w @ r' \<Longrightarrow> v = w \<and> r = r'"
proof (induction v arbitrary: w r r')
  case JNull
  obtain c t where w: "JSON_stringify w = c # t" "c \<in> opens w"
    using stringify_opens [OF JNull.prems(2)] by blast
  then have "c = CHR ''n''" using JNull.prems(5) by simp
  then have "w = JNull" using w(2) opens_disjoint [of c JNull w] by simp
  then show ?case using JNull.prems(5) by simp
next
  case (JBool b)
  obtain c t where w: "JSON_stringify w = c # t" "c \<in> opens w"
    using stringify_opens [OF JBool.prems(2)] by blast
  then have "c \<in> opens (JBool b)" using JBool.prems(5) by (cases b) auto
  then obtain b' where "w = JBool b'" using w(2) opens_disjoint [of c "JBool b" w] by auto
  then show ?case using JBool.prems(5) by (cases b; cases b') auto
next
  case (JNum x)
  obtain c t where w: "JSON_stringify w = c # t" "c \<in> opens w"
    using stringify_opens [OF JNum.prems(2)] by blast
  obtain c0 t0 where v: "JSON_stringify (JNum x) = c0 # t0" "c0 \<in> opens (JNum x)"
    using stringify_opens [OF JNum.prems(1)] by blast
  then have "c = c0" using w(1) JNum.prems(5) by simp
  then obtain y where w': "w = JNum y" using v(2) w(2) opens_disjoint [of c "JNum x" w] by auto
  have px: "plain_number x" and py: "plain_number y" using JNum.prems(1,2) w' by simp_all
  then have "js_isFinite x" "js_isFinite y" by (cases x; cases y; simp)+
  then have "js_Number_toString x @ r = js_Number_toString y @ r'"
    using JNum.prems(5) w' by simp
  then have "x = y \<and> r = r'"
    using px py JNum.prems(3,4) delim_not_number by (intro number_delimited) simp_all
  then show ?case using w' by simp
next
  case (JStr s)
  obtain c t where w: "JSON_stringify w = c # t" "c \<in> opens w"
    using stringify_opens [OF JStr.prems(2)] by blast
  then have "c = CHR 0x22" using JStr.prems(5) by (simp add: json_quote_def)
  then obtain s' where "w = JStr s'" using w(2) opens_disjoint [of c "JStr s" w] by auto
  then show ?case using JStr.prems(5) json_quote_inj [of s r s' r'] by simp
next
  case (JArr vs)
  obtain c t where w: "JSON_stringify w = c # t" "c \<in> opens w"
    using stringify_opens [OF JArr.prems(2)] by blast
  then have "c = CHR ''[''" using JArr.prems(5) by simp
  then obtain ws where w': "w = JArr ws" using w(2) opens_disjoint [of c "JArr vs" w] by auto
  let ?F = "\<lambda>e. JSON_stringify (the e)"
  have some: "\<forall>e \<in> set vs. e \<noteq> None" "\<forall>e \<in> set ws. e \<noteq> None"
    using JArr.prems(1,2) w' by (auto split: option.splits)
  have "JSON_stringify (JArr vs) = ''['' @ join_with '','' (map ?F vs) @ '']''"
    and "JSON_stringify (JArr ws) = ''['' @ join_with '','' (map ?F ws) @ '']''"
    by (simp_all only: JSON_stringify.simps plain_elements [OF some(1)] plain_elements [OF some(2)])
  then have eq: "join_with '','' (map ?F vs) @ CHR '']'' # r
          = join_with '','' (map ?F ws) @ CHR '']'' # r'"
    using JArr.prems(5) unfolding w' by simp
  have start: "\<exists>c t. ?F y = c # t \<and> c \<noteq> CHR '']''" for y
    using stringify_start [of "the y"] by blast
  have inj: "x = y \<and> a = b"
    if p: "x \<in> set vs" "y \<in> set ws" "delim a" "delim b" "?F x @ a = ?F y @ b" for x y a b
  proof -
    have "\<exists>v. x = Some v \<and> plain v" using JArr.prems(1) p(1) by (rule plain_JArr)
    then obtain v0 where x: "x = Some v0" "plain v0" by blast
    have "\<exists>v. y = Some v \<and> plain v" using JArr.prems(2) p(2) unfolding w' by (rule plain_JArr)
    then obtain w0 where y: "y = Some w0" "plain w0" by blast
    have "JSON_stringify v0 @ a = JSON_stringify w0 @ b" using p(5) x y by simp
    moreover have "v0 \<in> set_option x" using x by simp
    ultimately have "v0 = w0 \<and> a = b"
      using JArr.IH [OF p(1) _ x(2) y(2) p(3,4)] by blast
    then show ?thesis using x y by simp
  qed
  have "vs = ws \<and> r = r'"
    using inj start _ eq by (rule joined_inj) simp_all
  then show ?case using w' by simp
next
  case (JObj ps)
  obtain c t where w: "JSON_stringify w = c # t" "c \<in> opens w"
    using stringify_opens [OF JObj.prems(2)] by blast
  then have "c = CHR ''{''" using JObj.prems(5) by simp
  then obtain qs where w': "w = JObj qs" using w(2) opens_disjoint [of c "JObj ps" w] by auto
  let ?F = "\<lambda>(k, e). json_quote k @ '':'' @ JSON_stringify (the e)"
  have some: "\<forall>(k, e) \<in> set ps. e \<noteq> None" "\<forall>(k, e) \<in> set qs. e \<noteq> None"
    using JObj.prems(1,2) w' by (auto split: option.splits)
  have "JSON_stringify (JObj ps) = ''{'' @ join_with '','' (map ?F ps) @ ''}''"
    and "JSON_stringify (JObj qs) = ''{'' @ join_with '','' (map ?F qs) @ ''}''"
    by (simp_all only: JSON_stringify.simps plain_members [OF some(1)] plain_members [OF some(2)])
  then have eq: "join_with '','' (map ?F ps) @ CHR ''}'' # r = join_with '','' (map ?F qs) @ CHR ''}'' # r'"
    using JObj.prems(5) unfolding w' by simp
  have start: "\<exists>c t. ?F y = c # t \<and> c \<noteq> CHR ''}''" for y
    by (cases y) (simp add: json_quote_def)
  have inj: "x = y \<and> a = b"
    if p: "x \<in> set ps" "y \<in> set qs" "delim a" "delim b" "?F x @ a = ?F y @ b" for x y a b
  proof -
    obtain k e where x: "x = (k, e)" by (cases x)
    obtain k' e' where y: "y = (k', e')" by (cases y)
    have "(k, e) \<in> set ps" "(k', e') \<in> set qs" using p(1,2) x y by simp_all
    then have "\<exists>v. e = Some v \<and> plain v" "\<exists>v. e' = Some v \<and> plain v"
      using JObj.prems(1,2) unfolding w' by (auto intro: plain_JObj)
    then obtain v0 w0 where e: "e = Some v0" "plain v0" and e': "e' = Some w0" "plain w0"
      by blast
    have "json_quote k @ ('':'' @ JSON_stringify v0 @ a)
        = json_quote k' @ ('':'' @ JSON_stringify w0 @ b)"
      using p(5) x y e e' by simp
    then have k: "k = k'" and "'':'' @ JSON_stringify v0 @ a = '':'' @ JSON_stringify w0 @ b"
      using json_quote_inj by blast+
    then have "JSON_stringify v0 @ a = JSON_stringify w0 @ b" by simp
    moreover have "e \<in> Basic_BNFs.snds x" "v0 \<in> set_option e" using x e by simp_all
    ultimately have "v0 = w0 \<and> a = b"
      using JObj.IH [OF p(1) _ _ e(2) e'(2) p(3,4)] by blast
    then show ?thesis using k x y e e' by simp
  qed
  have "ps = qs \<and> r = r'"
    using inj start _ eq by (rule joined_inj) simp_all
  then show ?case using w' by simp
qed

lemma JSON_stringify_inj:
  "plain v \<Longrightarrow> plain w \<Longrightarrow> JSON_stringify v = JSON_stringify w \<longleftrightarrow> v = w"
  using stringify_delimited [of v w "[]" "[]"] by auto

text \<open>A plain value is structurally equal to itself.\<close>

lemma same_number_refl: "same_number x x"
  by (cases x) simp_all

lemma deep_equal_refl: "plain v \<Longrightarrow> deep_equal v v"
proof (induction v)
  case (JArr vs)
  have "case e of None \<Rightarrow> e = None
        | Some v \<Rightarrow> (case e of None \<Rightarrow> False | Some w \<Rightarrow> deep_equal v w)"
    if p: "e \<in> set vs" for e
  proof -
    have "\<exists>v. e = Some v \<and> plain v" using JArr.prems p by (rule plain_JArr)
    then obtain v0 where e: "e = Some v0" "plain v0" by blast
    then have "deep_equal v0 v0" using JArr.IH [OF p] by simp
    then show ?thesis using e by simp
  qed
  then show ?case by (simp add: list_all2_same)
next
  case (JObj ps)
  have d: "distinct (map fst ps)" using JObj.prems by simp
  have "case a of None \<Rightarrow> b = None
        | Some v \<Rightarrow> (case b of None \<Rightarrow> False | Some w \<Rightarrow> deep_equal v w)"
    if p: "(k, a) \<in> set ps" "(k, b) \<in> set ps" for k a b
  proof -
    have ab: "a = b" using d p by (rule eq_key_imp_eq_value)
    have "\<exists>v. a = Some v \<and> plain v" using JObj.prems p(1) by (rule plain_JObj)
    then obtain v0 where a: "a = Some v0" "plain v0" by blast
    have "a \<in> Basic_BNFs.snds (k, a)" by simp
    then have "deep_equal v0 v0" using JObj.IH [OF p(1)] a by simp
    then show ?thesis using a ab by simp
  qed
  then show ?case by auto
qed (simp_all add: same_number_refl)

lemma changed_flag:
  assumes "map_of (requests s) (msg_id m) = Some q" and "\<not> threw (finishRead s m)"
  shows "map changed_of (out_effects (finishRead s m)) =
           [Some ((js_nullish (msg_feature m) \<noteq> js_nullish (feature s))
                  \<or> (\<not> js_nullish (msg_feature m) \<and> \<not> js_nullish (feature s)
                      \<and> JSON_stringify (the (msg_feature m)) \<noteq> JSON_stringify (the (feature s))))]"
    and "feature (out_state (finishRead s m)) = msg_feature m"
proof -
  have g: "msg_group m \<noteq> None" if "js_truthy (msg_feature m)"
    using that assms by (auto simp add: finishRead_def Let_def split: option.splits)
  show "map changed_of (out_effects (finishRead s m)) =
           [Some ((js_nullish (msg_feature m) \<noteq> js_nullish (feature s))
                  \<or> (\<not> js_nullish (msg_feature m) \<and> \<not> js_nullish (feature s)
                      \<and> JSON_stringify (the (msg_feature m)) \<noteq> JSON_stringify (the (feature s))))]"
    using assms(1) g by (cases "js_truthy (msg_feature m)") (auto simp add: finishRead_def Let_def)
  show "feature (out_state (finishRead s m)) = msg_feature m"
    using assms(1) g by (cases "js_truthy (msg_feature m)") (auto simp add: finishRead_def Let_def)
qed

lemma plain_nullish: "js_nullish (Some f) \<longleftrightarrow> f = JNull"
  by (cases f) simp_all

lemma reply_found:
  "map_of (requests fs_selected) (msg_id (reply_with f)) = Some request0"
  "\<not> threw (finishRead fs_selected (reply_with f))"
  "msg_feature (reply_with f) = Some f" "feature fs_selected = Some feature_a"
  by (simp_all add: fs_selected_def fs_two_def reply_with_def finishRead_def Let_def
        split: option.splits)

lemma samples_plain: "plain feature_a" "plain feature_b"
  by (simp_all add: feature_a_def feature_b_def)

text \<open>
  C4, as the code has it. \<^verbatim>\<open>finishRead\<close> finds the request and does not throw. Then
  the one flag it hands on is true exactly when one of the new and the stored feature is
  \<^verbatim>\<open>null\<close> or undefined and the other is not, or both are values and their
  serialisations differ; and the new feature is stored as the selected one. When both
  features are plain values, that is exactly when they differ, in a value or in the order
  of the properties of an object: so every structural difference of plain features is
  reported as a change.
\<close>

theorem finishRead_changed:
  assumes "map_of (requests s) (msg_id m) = Some q" and "\<not> threw (finishRead s m)"
  shows "map changed_of (out_effects (finishRead s m)) =
           [Some ((js_nullish (msg_feature m) \<noteq> js_nullish (feature s))
                  \<or> (\<not> js_nullish (msg_feature m) \<and> \<not> js_nullish (feature s)
                      \<and> JSON_stringify (the (msg_feature m)) \<noteq> JSON_stringify (the (feature s))))]
       \<and> feature (out_state (finishRead s m)) = msg_feature m
       \<and> (msg_feature m = Some f \<and> feature s = Some g \<and> plain f \<and> plain g \<longrightarrow>
            map changed_of (out_effects (finishRead s m)) = [Some (f \<noteq> g)]
            \<and> (\<not> deep_equal f g \<longrightarrow>
                 map changed_of (out_effects (finishRead s m)) = [Some True]))"
proof (intro conjI impI)
  note c = changed_flag [OF assms]
  show "map changed_of (out_effects (finishRead s m)) =
           [Some ((js_nullish (msg_feature m) \<noteq> js_nullish (feature s))
                  \<or> (\<not> js_nullish (msg_feature m) \<and> \<not> js_nullish (feature s)
                      \<and> JSON_stringify (the (msg_feature m)) \<noteq> JSON_stringify (the (feature s))))]"
    by (rule c(1))
  show "feature (out_state (finishRead s m)) = msg_feature m" by (rule c(2))
  assume p: "msg_feature m = Some f \<and> feature s = Some g \<and> plain f \<and> plain g"
  then have inj: "JSON_stringify f = JSON_stringify g \<longleftrightarrow> f = g"
    by (simp add: JSON_stringify_inj)
  show flag: "map changed_of (out_effects (finishRead s m)) = [Some (f \<noteq> g)]"
    using c(1) p inj by (auto simp add: plain_nullish)
  assume "\<not> deep_equal f g"
  then have "f \<noteq> g" using deep_equal_refl [of f] p by auto
  then show "map changed_of (out_effects (finishRead s m)) = [Some True]"
    using flag by simp
qed

theorem finishRead_changed_witness:
  "map_of (requests fs_selected) (msg_id (reply_with feature_b)) = Some request0
   \<and> \<not> threw (finishRead fs_selected (reply_with feature_b))
   \<and> msg_feature (reply_with feature_b) = Some feature_b
   \<and> feature fs_selected = Some feature_a
   \<and> plain feature_b \<and> plain feature_a
   \<and> \<not> deep_equal feature_b feature_a
   \<and> map changed_of (out_effects (finishRead fs_selected (reply_with feature_b))) = [Some True]
   \<and> feature (out_state (finishRead fs_selected (reply_with feature_b))) = Some feature_b
   \<and> map changed_of (out_effects (finishRead fs_selected (reply_with feature_a))) = [Some False]"
proof -
  note b = finishRead_changed [OF reply_found(1,2), of feature_b feature_b feature_a]
  note a = finishRead_changed [OF reply_found(1,2), of feature_a feature_a feature_a]
  have d: "\<not> deep_equal feature_b feature_a"
    by (simp add: feature_a_def feature_b_def)
  have pb: "msg_feature (reply_with feature_b) = Some feature_b
      \<and> feature fs_selected = Some feature_a \<and> plain feature_b \<and> plain feature_a"
    by (simp add: reply_found samples_plain)
  have pa: "msg_feature (reply_with feature_a) = Some feature_a
      \<and> feature fs_selected = Some feature_a \<and> plain feature_a \<and> plain feature_a"
    by (simp add: reply_found samples_plain)
  have 1: "map changed_of (out_effects (finishRead fs_selected (reply_with feature_b))) = [Some True]"
    using b [THEN conjunct2, THEN conjunct2, THEN mp, OF pb, THEN conjunct2, THEN mp, OF d] .
  have 2: "feature (out_state (finishRead fs_selected (reply_with feature_b))) = Some feature_b"
    using b [THEN conjunct2, THEN conjunct1] by (simp add: reply_found)
  have 3: "map changed_of (out_effects (finishRead fs_selected (reply_with feature_a))) = [Some False]"
    using a [THEN conjunct2, THEN conjunct2, THEN mp, OF pa, THEN conjunct1] by simp
  show ?thesis
    by (intro conjI reply_found samples_plain d 1 2 3)
qed

text \<open>
  C4 as stated fails in both directions. Two features that are structurally equal, with
  the properties of an object in different orders, have different serialisations: the
  flag is true. Two features that differ in a property whose value is \<^verbatim>\<open>undefined\<close>
  have the same serialisation: the flag is false.
\<close>

theorem finishRead_changed_counterexample:
  "map_of (requests fs_selected) (msg_id (reply_with feature_reordered)) = Some request0
   \<and> \<not> threw (finishRead fs_selected (reply_with feature_reordered))
   \<and> feature fs_selected = Some feature_a
   \<and> deep_equal feature_reordered feature_a
   \<and> map changed_of (out_effects (finishRead fs_selected (reply_with feature_reordered)))
       = [Some True]
   \<and> \<not> threw (finishRead fs_selected (reply_with feature_undefined))
   \<and> \<not> deep_equal feature_undefined feature_a
   \<and> map changed_of (out_effects (finishRead fs_selected (reply_with feature_undefined)))
       = [Some False]"
proof -
  have tu: "JSON_stringify feature_undefined = JSON_stringify feature_a"
    by (simp add: feature_a_def feature_undefined_def)
  have "plain feature_reordered" by (simp add: feature_reordered_def)
  moreover have "feature_reordered \<noteq> feature_a"
    by (simp add: feature_a_def feature_reordered_def)
  ultimately have tr: "JSON_stringify feature_reordered \<noteq> JSON_stringify feature_a"
    using samples_plain(1) by (simp add: JSON_stringify_inj)
  have 1: "deep_equal feature_reordered feature_a"
    by (auto simp add: feature_a_def feature_reordered_def)
  have "''ref'' \<in> {''id'', ''name'', ''ref''}" "''ref'' \<notin> {''id'', ''name''}" by simp_all
  then have "{''id'', ''name'', ''ref''} \<noteq> {''id'', ''name''}" by metis
  then have 2: "\<not> deep_equal feature_undefined feature_a"
    by (simp add: feature_a_def feature_undefined_def)
  have n: "\<not> js_nullish (Some feature_a)" "\<not> js_nullish (Some feature_reordered)"
    "\<not> js_nullish (Some feature_undefined)"
    by (simp_all add: feature_a_def feature_reordered_def feature_undefined_def)
  have 3: "map changed_of (out_effects (finishRead fs_selected (reply_with feature_reordered)))
       = [Some True]"
    using changed_flag(1) [OF reply_found(1,2), of feature_reordered] n tr
    by (simp add: reply_found)
  have 4: "map changed_of (out_effects (finishRead fs_selected (reply_with feature_undefined)))
       = [Some False]"
    using changed_flag(1) [OF reply_found(1,2), of feature_undefined] n tu
    by (simp add: reply_found)
  show ?thesis
    by (intro conjI reply_found 1 2 3 4)
qed

end
